theory Spec2Isabelle
  imports Main "HOL-Library.Word" "HOL-Library.Signed_Division" "HOL-Library.Multiset"
begin

unbundle bit_operations_syntax

section \<open>Undefined behaviour as a value\<close>

text \<open>
  The C++ of the repository has no exceptions in the parts modelled here, but it has
  operations the language leaves undefined: a shift whose count is negative or not below
  the width of the shifted operand, an index outside a Qt container (a failed assertion
  in a debug build), and an \<open>int\<close> result outside the 32-bit range. Each of them is a
  branch of the model that returns an \<open>error\<close>.

  An \<open>int\<close> of the source is a mathematical integer of the model. Where the source
  computes an \<open>int\<close> that can leave the 32-bit range (the sum \<open>startBit + sigSize\<close> and the
  bit positions of \<open>processIntegerSignal\<close>), the model checks the range with \<open>int32\<close>; an
  \<open>int\<close> parameter outside that range is not an input of the source. The row indices of
  the sort stay between \<open>-1\<close> and the number of rows, and the counter
  \<open>lastUpdateNumFrames\<close>, which the modelled functions only set and increment, is not
  bounded.
\<close>

datatype error = ShiftOutOfRange | IndexOutOfRange | IntegerOverflow

text \<open>The range of a 32-bit \<open>int\<close>, and the value of an \<open>int\<close> expression.\<close>

definition is_int32 :: "int \<Rightarrow> bool" where
  "is_int32 x = (- (2 ^ 31) \<le> x \<and> x < 2 ^ 31)"

definition int32 :: "int \<Rightarrow> error + int" where
  "int32 x = (if is_int32 x then Inr x else Inl IntegerOverflow)"

section \<open>Utility::processIntegerSignal\<close>

text \<open>\<open>1ULL << n\<close> for an \<open>int\<close> count \<open>n\<close>.\<close>

definition shl_u64 :: "int \<Rightarrow> error + 64 word" where
  "shl_u64 n = (if 0 \<le> n \<and> n < 64 then Inr (push_bit (nat n) 1) else Inl ShiftOutOfRange)"

text \<open>
  The test \<open>data[bit / 8] & (1 << (bit % 8))\<close>. Division and remainder of C++ truncate
  towards zero (\<open>sdiv\<close>, \<open>smod\<close>); the caller has already checked that the byte position
  is below \<open>data.count()\<close>. The promotion of the \<open>char\<close> to \<open>int\<close> does not matter for
  the bits 0 to 7 that the mask can select.
\<close>

definition data_bit :: "8 word list \<Rightarrow> int \<Rightarrow> error + bool" where
  "data_bit data b =
     (if b sdiv 8 < 0 then Inl IndexOutOfRange
      else if b smod 8 < 0 then Inl ShiftOutOfRange
      else Inr (bit (data ! nat (b sdiv 8)) (nat (b smod 8))))"

text \<open>
  How a traversal loop ends: by the \<open>return 0\<close> inside it, or by running to its end with
  the accumulated \<open>result\<close>.
\<close>

datatype loop_exit = Returned "64 word" | Finished "64 word"

text \<open>
  The little-endian loop, from the state (\<open>bitpos\<close>, \<open>bit\<close>, \<open>result\<close>). The \<open>bit++\<close>
  that ends an iteration is checked; \<open>bitpos++\<close> stays at or below \<open>sigSize\<close>.
\<close>

function le_loop :: "8 word list \<Rightarrow> int \<Rightarrow> int \<Rightarrow> int \<Rightarrow> 64 word \<Rightarrow> error + loop_exit" where
  "le_loop data sigSize bitpos b result =
     (if bitpos < sigSize then
        (if b < 64 then
           (if b sdiv 8 \<ge> int (length data) then Inr (Returned 0)
            else (case data_bit data b of
                    Inl e \<Rightarrow> Inl e
                  | Inr isSet \<Rightarrow>
                      (if isSet then
                         (case shl_u64 bitpos of
                            Inl e \<Rightarrow> Inl e
                          | Inr m \<Rightarrow>
                              (case int32 (b + 1) of
                                 Inl e \<Rightarrow> Inl e
                               | Inr b' \<Rightarrow> le_loop data sigSize (bitpos + 1) b' (result + m)))
                       else
                         (case int32 (b + 1) of
                            Inl e \<Rightarrow> Inl e
                          | Inr b' \<Rightarrow> le_loop data sigSize (bitpos + 1) b' result))))
         else
           (case int32 (b + 1) of
              Inl e \<Rightarrow> Inl e
            | Inr b' \<Rightarrow> le_loop data sigSize (bitpos + 1) b' result))
      else Inr (Finished result))"
  by pat_completeness auto
termination
  by (relation "measure (\<lambda>(data, sigSize, bitpos, b, result). nat (sigSize - bitpos))") auto

declare le_loop.simps [simp del]

text \<open>
  The step of the Motorola traversal: \<open>if ((bit % 8) == 0) bit += 15; else bit--;\<close>.
  \<open>be_next\<close> is the position it computes, which the loop checks against the range.
\<close>

definition be_next :: "int \<Rightarrow> int" where
  "be_next b = (if b smod 8 = 0 then b + 15 else b - 1)"

text \<open>The big-endian (Motorola) loop.\<close>

function be_loop :: "8 word list \<Rightarrow> int \<Rightarrow> int \<Rightarrow> int \<Rightarrow> 64 word \<Rightarrow> error + loop_exit" where
  "be_loop data sigSize bitpos b result =
     (if bitpos < sigSize then
        (if b < 64 then
           (if b sdiv 8 \<ge> int (length data) then Inr (Returned 0)
            else (case data_bit data b of
                    Inl e \<Rightarrow> Inl e
                  | Inr isSet \<Rightarrow>
                      (if isSet then
                         (case shl_u64 (sigSize - bitpos - 1) of
                            Inl e \<Rightarrow> Inl e
                          | Inr m \<Rightarrow>
                              (case int32 (be_next b) of
                                 Inl e \<Rightarrow> Inl e
                               | Inr b' \<Rightarrow> be_loop data sigSize (bitpos + 1) b' (result + m)))
                       else
                         (case int32 (be_next b) of
                            Inl e \<Rightarrow> Inl e
                          | Inr b' \<Rightarrow> be_loop data sigSize (bitpos + 1) b' result))))
         else
           (case int32 (be_next b) of
              Inl e \<Rightarrow> Inl e
            | Inr b' \<Rightarrow> be_loop data sigSize (bitpos + 1) b' result))
      else Inr (Finished result))"
  by pat_completeness auto
termination
  by (relation "measure (\<lambda>(data, sigSize, bitpos, b, result). nat (sigSize - bitpos))") auto

declare be_loop.simps [simp del]

text \<open>
  The sign extension at the end of the function: \<open>mask = 1ULL << (sigSize - 1)\<close>, and
  when the masked bit is set, \<open>signedMask = ~((1ULL << sigSize) - 1)\<close> and
  \<open>result = (-1LL & signedMask) | result\<close>.
\<close>

definition sign_extend :: "64 word \<Rightarrow> int \<Rightarrow> error + 64 word" where
  "sign_extend result sigSize =
     (case shl_u64 (sigSize - 1) of
        Inl e \<Rightarrow> Inl e
      | Inr msk \<Rightarrow>
          (if result AND msk = msk then
             (case shl_u64 sigSize of
                Inl e \<Rightarrow> Inl e
              | Inr t \<Rightarrow> Inr (((- 1) AND NOT (t - 1)) OR result))
           else Inr result))"

definition processIntegerSignal ::
  "8 word list \<Rightarrow> int \<Rightarrow> int \<Rightarrow> bool \<Rightarrow> bool \<Rightarrow> error + 64 word" where
  "processIntegerSignal data startBit sigSize littleEndian isSigned =
     (case int32 (startBit + sigSize) of
        Inl e \<Rightarrow> Inl e
      | Inr lastBit \<Rightarrow>
          (let maxBytes = lastBit sdiv 8 in
           if int (length data) < maxBytes then Inr 0
           else
             (case (if littleEndian then le_loop data sigSize 0 startBit 0
                    else be_loop data sigSize 0 startBit 0) of
                Inl e \<Rightarrow> Inl e
              | Inr (Returned v) \<Rightarrow> Inr v
              | Inr (Finished result) \<Rightarrow>
                  (if isSigned then sign_extend result sigSize else Inr result))))"

text \<open>
  The bit position the traversal is at in iteration \<open>k\<close> of its loop, and whether some
  iteration looks at a position below 64 whose byte is outside the payload.
\<close>

fun be_position :: "int \<Rightarrow> nat \<Rightarrow> int" where
  "be_position b 0 = b"
| "be_position b (Suc k) = be_position (be_next b) k"

definition bit_position :: "bool \<Rightarrow> int \<Rightarrow> nat \<Rightarrow> int" where
  "bit_position littleEndian startBit k =
     (if littleEndian then startBit + int k else be_position startBit k)"

definition leaves_payload :: "8 word list \<Rightarrow> bool \<Rightarrow> int \<Rightarrow> int \<Rightarrow> bool" where
  "leaves_payload data littleEndian startBit sigSize =
     list_ex (\<lambda>k. bit_position littleEndian startBit k < 64
                  \<and> int (length data) \<le> bit_position littleEndian startBit k div 8)
       [0..<nat sigSize]"

text \<open>
  Loop invariants: \<open>result\<close> has bits below \<open>bitpos\<close> only (little-endian), or only
  among the top \<open>bitpos\<close> bits of the field (big-endian).
\<close>

definition le_inv :: "int \<Rightarrow> 64 word \<Rightarrow> bool" where
  "le_inv bitpos r = (\<forall>i. bit r i \<longrightarrow> int i < bitpos)"

definition be_inv :: "int \<Rightarrow> int \<Rightarrow> 64 word \<Rightarrow> bool" where
  "be_inv sigSize bitpos r = (\<forall>i. bit r i \<longrightarrow> sigSize - bitpos \<le> int i \<and> int i < sigSize)"

text \<open>
  The layouts for which the proofs below show that no \<open>int\<close> of the function overflows:
  a start bit that is not negative, 1 to 64 bits, and room for the jumps of the Motorola
  traversal, which moves the position up by at most 15 in an iteration.
\<close>

definition layout_in_range :: "int \<Rightarrow> int \<Rightarrow> bool" where
  "layout_in_range startBit sigSize =
     (0 \<le> startBit \<and> 1 \<le> sigSize \<and> sigSize \<le> 64 \<and> startBit + 15 * sigSize < 2 ^ 31)"

text \<open>
  The payload bit at a position that is not negative, and the bit of the result that
  iteration \<open>k\<close> adds: \<open>1ULL << bitpos\<close> or \<open>1ULL << (sigSize - bitpos - 1)\<close>.
\<close>

definition payload_bit :: "8 word list \<Rightarrow> int \<Rightarrow> bool" where
  "payload_bit data p = bit (data ! nat (p div 8)) (nat (p mod 8))"

definition result_bit :: "bool \<Rightarrow> int \<Rightarrow> nat \<Rightarrow> nat" where
  "result_bit littleEndian sigSize k = (if littleEndian then k else nat sigSize - 1 - k)"

section \<open>Frames and the frame model\<close>

text \<open>The frame types of Qt's \<open>QCanBusFrame\<close>.\<close>

datatype FrameType = UnknownFrame | DataFrame | ErrorFrame | RemoteRequestFrame | InvalidFrame

text \<open>
  Modelled from the spec: the declaration of \<open>CANFrame\<close> (a \<open>QCanBusFrame\<close> with the
  added members \<open>bus\<close>, \<open>isReceived\<close>, \<open>timedelta\<close> and \<open>frameCount\<close>) is not among the
  sources. The fields are the ones the code reads and writes; \<open>timeStamp\<close> is the
  microsecond part of the Qt time stamp (the only part the model class uses), and
  \<open>frameCount\<close>, the spec's sequence count ("number of observed occurrences"), is taken
  as an unbounded counter.
\<close>

record CANFrame =
  frameId :: "32 word"
  hasExtendedFrameFormat :: bool
  frameType :: FrameType
  timeStamp :: "64 word"
  payload :: "8 word list"
  bus :: int
  isReceived :: bool
  timedelta :: "64 word"
  frameCount :: nat

text \<open>
  The members of \<open>CANFrameModel\<close> that the modelled functions read or write. \<open>filters\<close>
  is a \<open>QMap<int, bool>\<close>: an association list kept in key order. The view
  notifications (\<open>beginResetModel\<close>, \<open>beginInsertRows\<close>, the emitted signals) and the
  mutex have no effect on these members and are left out.
\<close>

record CANFrameModel =
  frames :: "CANFrame list"
  filteredFrames :: "CANFrame list"
  filters :: "(int \<times> bool) list"
  overwriteDups :: bool
  timeOffset :: "64 word"
  needFilterRefresh :: bool
  lastUpdateNumFrames :: int
  sortDirAsc :: bool
  filterNMTon :: bool
  filterSYNCon :: bool
  filterEMCYon :: bool
  filterTIMEon :: bool
  filterHBEATon :: bool

subsection \<open>QMap\<close>

definition qmap_contains :: "(int \<times> bool) list \<Rightarrow> int \<Rightarrow> bool" where
  "qmap_contains m k = (map_of m k \<noteq> None)"

text \<open>\<open>QMap::insert\<close>: the value of an existing key is replaced.\<close>

fun qmap_insert :: "int \<Rightarrow> bool \<Rightarrow> (int \<times> bool) list \<Rightarrow> (int \<times> bool) list" where
  "qmap_insert k v [] = [(k, v)]"
| "qmap_insert k v ((k', v') # m) =
     (if k < k' then (k, v) # (k', v') # m
      else if k = k' then (k, v) # m
      else (k', v') # qmap_insert k v m)"

text \<open>
  The non-const \<open>QMap::operator[]\<close> used as a value: a key that is absent is inserted
  with the default value \<open>false\<close>. The result is the value read and the map afterwards.
\<close>

definition qmap_subscript :: "(int \<times> bool) list \<Rightarrow> int \<Rightarrow> bool \<times> (int \<times> bool) list" where
  "qmap_subscript m k =
     (case map_of m k of
        Some v \<Rightarrow> (v, m)
      | None \<Rightarrow> (False, qmap_insert k False m))"

subsection \<open>Filters\<close>

text \<open>The key of an identifier in the filter table: \<open>frameId() & 0x7F\<close>, as an \<open>int\<close>.\<close>

definition filter_key :: "32 word \<Rightarrow> int" where
  "filter_key ident = uint (ident AND 0x7F)"

definition filterFrameConsideringFunction :: "CANFrameModel \<Rightarrow> 32 word \<Rightarrow> bool" where
  "filterFrameConsideringFunction s frame_id =
     (let func = drop_bit 7 (frame_id AND 0x7FF) in
      if func = 0 then (if filterNMTon s then False else True)
      else if func = 1 then
        (if frame_id AND 0x7F = 0 then (if filterSYNCon s then False else True)
         else (if filterEMCYon s then False else True))
      else if func = 2 then (if filterTIMEon s then False else True)
      else if func = 14 then (if filterHBEATon s then False else True)
      else True)"

text \<open>The loop of \<open>any_filters_are_configured\<close> over the values of the map.\<close>

fun any_not_true :: "bool list \<Rightarrow> bool" where
  "any_not_true [] = False"
| "any_not_true (val # vals) = (if val = True then any_not_true vals else True)"

definition any_filters_are_configured :: "CANFrameModel \<Rightarrow> bool" where
  "any_filters_are_configured s = any_not_true (map snd (filters s))"

subsection \<open>sendRefresh\<close>

text \<open>
  The loop of \<open>sendRefresh()\<close> over the full store: \<open>filters[...]\<close> is the inserting
  subscript, so the table is threaded through the loop.
\<close>

fun refresh_loop ::
  "CANFrameModel \<Rightarrow> CANFrame list \<Rightarrow> (int \<times> bool) list \<Rightarrow> CANFrame list
     \<Rightarrow> (int \<times> bool) list \<times> CANFrame list" where
  "refresh_loop s [] flt tempContainer = (flt, tempContainer)"
| "refresh_loop s (f # fs) flt tempContainer =
     (case qmap_subscript flt (filter_key (frameId f)) of
        (v, flt') \<Rightarrow>
          refresh_loop s fs flt'
            (if v \<and> filterFrameConsideringFunction s (frameId f) then tempContainer @ [f]
             else tempContainer))"

definition sendRefresh :: "CANFrameModel \<Rightarrow> CANFrameModel" where
  "sendRefresh s =
     (case refresh_loop s (frames s) (filters s) [] of
        (flt, tempContainer) \<Rightarrow>
          s\<lparr>filters := flt, filteredFrames := tempContainer, lastUpdateNumFrames := 0\<rparr>)"

subsection \<open>Editing the filter table\<close>

text \<open>
  \<open>setFilterState(unsigned int ID, bool state)\<close>: the test is on \<open>ID & 0x7F\<close>, the
  assignment \<open>filters[ID] = state\<close> is on \<open>ID\<close> itself, converted to the \<open>int\<close> key.
\<close>

definition setFilterState :: "32 word \<Rightarrow> bool \<Rightarrow> CANFrameModel \<Rightarrow> CANFrameModel" where
  "setFilterState ident state s =
     (if \<not> qmap_contains (filters s) (filter_key ident) then s
      else sendRefresh (s\<lparr>filters := qmap_insert (sint ident) state (filters s)\<rparr>))"

definition setAllFilters :: "bool \<Rightarrow> CANFrameModel \<Rightarrow> CANFrameModel" where
  "setAllFilters state s =
     sendRefresh (s\<lparr>filters := map (\<lambda>(k, v). (k, state)) (filters s)\<rparr>)"

subsection \<open>Ingestion\<close>

text \<open>
  The scan of the full store in overwrite mode: at the first row with the identifier and
  bus of \<open>tempFrame\<close>, the count and the time delta of \<open>tempFrame\<close> are set from that row
  and the row is replaced. The result is \<open>None\<close> when no row matches (\<open>found\<close> stays
  false), and the updated \<open>tempFrame\<close> with the updated store otherwise.
\<close>

fun overwrite_scan :: "CANFrame \<Rightarrow> CANFrame list \<Rightarrow> (CANFrame \<times> CANFrame list) option" where
  "overwrite_scan tempFrame [] = None"
| "overwrite_scan tempFrame (f # fs) =
     (if frameId f = frameId tempFrame \<and> bus f = bus tempFrame then
        (let t = tempFrame\<lparr>frameCount := frameCount f + 1,
                            timedelta := timeStamp tempFrame - timeStamp f\<rparr>
         in Some (t, t # fs))
      else (case overwrite_scan tempFrame fs of
              None \<Rightarrow> None
            | Some (t, fs') \<Rightarrow> Some (t, f # fs')))"

text \<open>The loop over the filtered view that mirrors the replacement (it has no \<open>break\<close>).\<close>

definition mirror_filtered :: "CANFrame \<Rightarrow> CANFrame list \<Rightarrow> CANFrame list" where
  "mirror_filtered tempFrame ffs =
     map (\<lambda>g. if frameId g = frameId tempFrame \<and> bus g = bus tempFrame then tempFrame else g) ffs"

definition addFrame :: "CANFrame \<Rightarrow> bool \<Rightarrow> CANFrameModel \<Rightarrow> CANFrameModel" where
  "addFrame frame autoRefresh s =
     (let tempFrame = frame\<lparr>timeStamp := timeStamp frame - timeOffset s\<rparr>;
          key = filter_key (frameId tempFrame);
          s1 = s\<lparr>lastUpdateNumFrames := lastUpdateNumFrames s + 1\<rparr>;
          s2 = (if \<not> qmap_contains (filters s1) key then
                  (if any_filters_are_configured s1
                   then s1\<lparr>filters := qmap_insert key False (filters s1)\<rparr>
                   else s1\<lparr>filters := qmap_insert key True (filters s1)\<rparr>)
                    \<lparr>needFilterRefresh := True\<rparr>
                else s1)
      in if \<not> overwriteDups s2 then
           (let s3 = s2\<lparr>frames := frames s2 @ [tempFrame]\<rparr> in
            case qmap_subscript (filters s3) key of
              (v, flt) \<Rightarrow>
                if v \<and> filterFrameConsideringFunction s3 (frameId tempFrame)
                then s3\<lparr>filters := flt,
                        filteredFrames := filteredFrames s3 @ [tempFrame\<lparr>frameCount := 1\<rparr>]\<rparr>
                else s3\<lparr>filters := flt\<rparr>)
         else
           (case overwrite_scan tempFrame (frames s2) of
              None \<Rightarrow>
                (let s3 = s2\<lparr>frames := frames s2 @ [tempFrame]\<rparr> in
                 case qmap_subscript (filters s3) key of
                   (v, flt) \<Rightarrow>
                     if v \<and> filterFrameConsideringFunction s3 (frameId tempFrame)
                     then s3\<lparr>filters := flt,
                             filteredFrames :=
                               filteredFrames s3 @ [tempFrame\<lparr>frameCount := 1, timedelta := 0\<rparr>]\<rparr>
                     else s3\<lparr>filters := flt\<rparr>)
            | Some (t, fs) \<Rightarrow>
                s2\<lparr>frames := fs, filteredFrames := mirror_filtered t (filteredFrames s2)\<rparr>))"

text \<open>\<open>addFrames\<close>: \<open>addFrame(frame)\<close> for each frame of the batch, in order.\<close>

fun addFrames :: "CANFrame list \<Rightarrow> CANFrameModel \<Rightarrow> CANFrameModel" where
  "addFrames [] s = s"
| "addFrames (frame # pFrames) s = addFrames pFrames (addFrame frame False s)"

text \<open>The body of the loop of \<open>insertFrames\<close>, the loop, and the function itself.\<close>

definition insert_body :: "CANFrame \<Rightarrow> CANFrameModel \<Rightarrow> CANFrameModel" where
  "insert_body f s =
     (let key = filter_key (frameId f);
          s1 = s\<lparr>frames := frames s @ [f]\<rparr>;
          s2 = (if \<not> qmap_contains (filters s1) key
                then s1\<lparr>filters := qmap_insert key True (filters s1), needFilterRefresh := True\<rparr>
                else s1)
      in case qmap_subscript (filters s2) key of
           (v, flt) \<Rightarrow>
             if v \<and> filterFrameConsideringFunction s2 (frameId f)
             then s2\<lparr>filters := flt, filteredFrames := filteredFrames s2 @ [f]\<rparr>
             else s2\<lparr>filters := flt\<rparr>)"

fun insert_loop :: "CANFrame list \<Rightarrow> CANFrameModel \<Rightarrow> CANFrameModel" where
  "insert_loop [] s = s"
| "insert_loop (f # newFrames) s = insert_loop newFrames (insert_body f s)"

definition insertFrames :: "CANFrame list \<Rightarrow> CANFrameModel \<Rightarrow> CANFrameModel" where
  "insertFrames newFrames s =
     (insert_loop newFrames s)\<lparr>lastUpdateNumFrames := int (length newFrames)\<rparr>"

subsection \<open>Loading a filter file\<close>

text \<open>
  A \<open>QByteArray\<close> is a \<open>string\<close>: a list of bytes. The Qt functions that
  \<open>loadFilterFile\<close> calls are library code; they are modelled from the Qt documentation:
  \<open>QIODevice::readLine\<close> (a line with its newline, or the rest of the file),
  \<open>QByteArray::simplified\<close> (white space trimmed at both ends, each inner run of white
  space replaced by one space), \<open>QByteArray::split\<close>, \<open>QByteArray::toInt\<close> with base 16
  (leading and trailing white space, an optional sign, an optional \<open>0x\<close>, hexadecimal
  digits; 0 when the text is not such a number or the number is outside the 32-bit
  range) and \<open>QByteArray::toUpper\<close> (on the letters a to z, which is all that the
  comparison with \<open>"T"\<close> depends on).
\<close>

definition ascii_isspace :: "char \<Rightarrow> bool" where
  "ascii_isspace c = (let n = (of_char c :: nat) in n = 32 \<or> (9 \<le> n \<and> n \<le> 13))"

fun readLine :: "string \<Rightarrow> string \<times> string" where
  "readLine [] = ([], [])"
| "readLine (c # cs) =
     (if c = CHR 0x0A then ([c], cs)
      else (case readLine cs of (line, rest) \<Rightarrow> (c # line, rest)))"

text \<open>The words of a byte array (\<open>cur\<close> is the word being read), and their join.\<close>

fun simplified_words :: "string \<Rightarrow> string \<Rightarrow> string list" where
  "simplified_words [] cur = (if cur = [] then [] else [cur])"
| "simplified_words (c # cs) cur =
     (if ascii_isspace c then (if cur = [] then simplified_words cs [] else cur # simplified_words cs [])
      else simplified_words cs (cur @ [c]))"

fun join_words :: "string list \<Rightarrow> string" where
  "join_words [] = []"
| "join_words [w] = w"
| "join_words (w # ws) = w @ CHR 0x20 # join_words ws"

definition simplified :: "string \<Rightarrow> string" where
  "simplified ba = join_words (simplified_words ba [])"

fun split :: "char \<Rightarrow> string \<Rightarrow> string list" where
  "split sep [] = [[]]"
| "split sep (c # cs) =
     (if c = sep then [] # split sep cs
      else (case split sep cs of [] \<Rightarrow> [[c]] | t # ts \<Rightarrow> (c # t) # ts))"

definition hex_digit :: "char \<Rightarrow> nat option" where
  "hex_digit c =
     (let n = (of_char c :: nat) in
      if 48 \<le> n \<and> n \<le> 57 then Some (n - 48)
      else if 65 \<le> n \<and> n \<le> 70 then Some (n - 55)
      else if 97 \<le> n \<and> n \<le> 102 then Some (n - 87)
      else None)"

fun hex_value :: "string \<Rightarrow> int \<Rightarrow> int" where
  "hex_value [] acc = acc"
| "hex_value (c # cs) acc =
     hex_value cs (16 * acc + (case hex_digit c of None \<Rightarrow> 0 | Some d \<Rightarrow> int d))"

definition toInt_16 :: "string \<Rightarrow> int" where
  "toInt_16 ba =
     (let s1 = dropWhile ascii_isspace ba;
          neg = (case s1 of [] \<Rightarrow> False | c # r \<Rightarrow> c = CHR ''-'');
          s2 = (case s1 of [] \<Rightarrow> [] | c # r \<Rightarrow> if c = CHR ''-'' \<or> c = CHR ''+'' then r else s1);
          s3 = (case s2 of
                  a # b # r \<Rightarrow> if a = CHR ''0'' \<and> (b = CHR ''x'' \<or> b = CHR ''X'') then r else s2
                | _ \<Rightarrow> s2);
          digits = takeWhile (\<lambda>c. hex_digit c \<noteq> None) s3;
          rest = dropWhile (\<lambda>c. hex_digit c \<noteq> None) s3;
          v = (if neg then - hex_value digits 0 else hex_value digits 0)
      in if digits = [] \<or> dropWhile ascii_isspace rest \<noteq> [] then 0
         else if - (2 ^ 31) \<le> v \<and> v < 2 ^ 31 then v
         else 0)"

definition toUpper :: "string \<Rightarrow> string" where
  "toUpper ba =
     map (\<lambda>c. let n = (of_char c :: nat) in if 97 \<le> n \<and> n \<le> 122 then char_of (n - 32) else c) ba"

lemma readLine_not_longer: "length (snd (readLine rest)) \<le> length rest"
  by (induction rest) (auto split: prod.splits)

lemma readLine_shorter: "rest \<noteq> [] \<Longrightarrow> length (snd (readLine rest)) < length rest"
proof (cases rest)
  case Nil
  assume "rest \<noteq> []"
  with Nil show ?thesis by simp
next
  case (Cons c cs)
  show ?thesis
    using readLine_not_longer [of cs] Cons by (auto split: prod.splits)
qed

text \<open>
  The \<open>while (!inFile->atEnd())\<close> loop, on the unread rest of the file. \<open>tokens[1]\<close> on
  a list of one token is an index out of range.
\<close>

function loadFilter_loop :: "string \<Rightarrow> (int \<times> bool) list \<Rightarrow> error + (int \<times> bool) list" where
  "loadFilter_loop rest flt =
     (if rest = [] then Inr flt
      else
        (let line = simplified (fst (readLine rest)); rest' = snd (readLine rest) in
         if length line > 2 then
           (let tokens = split (CHR '','') line;
                ID = toInt_16 (tokens ! 0)
            in if length tokens \<le> 1 then Inl IndexOutOfRange
               else if toUpper (tokens ! 1) = ''T''
               then loadFilter_loop rest' (qmap_insert (ID AND 0x7F) True flt)
               else loadFilter_loop rest' (qmap_insert (ID AND 0x7F) False flt))
         else loadFilter_loop rest' flt))"
  by pat_completeness auto
termination
  by (relation "measure (\<lambda>(rest, flt). length rest)") (auto simp: readLine_shorter)

declare loadFilter_loop.simps [simp del]

text \<open>
  \<open>loadFilterFile\<close>: the file is its content, or \<open>None\<close> when it cannot be opened.
\<close>

definition loadFilterFile :: "string option \<Rightarrow> CANFrameModel \<Rightarrow> error + CANFrameModel" where
  "loadFilterFile file s =
     (case file of
        None \<Rightarrow> Inr s
      | Some content \<Rightarrow>
          (case loadFilter_loop content [] of
             Inl e \<Rightarrow> Inl e
           | Inr flt \<Rightarrow> Inr (sendRefresh (s\<lparr>filters := flt\<rparr>))))"

subsection \<open>Construction\<close>

text \<open>
  The state the constructor of \<open>CANFrameModel\<close> leaves. The constructor does not touch the
  five protocol-class flags (their declaration is in the header, which is not among the
  sources); they are taken as off.
\<close>

definition CANFrameModel_ctor :: CANFrameModel where
  "CANFrameModel_ctor =
     \<lparr>frames = [], filteredFrames = [], filters = [], overwriteDups = False, timeOffset = 0,
      needFilterRefresh = False, lastUpdateNumFrames = 0, sortDirAsc = False,
      filterNMTon = False, filterSYNCon = False, filterEMCYon = False, filterTIMEon = False,
      filterHBEATon = False\<rparr>"

text \<open>
  A received standard data frame with the given identifier, bus, time stamp, payload and
  count field, for the concrete scenarios below.
\<close>

definition data_frame :: "32 word \<Rightarrow> int \<Rightarrow> 64 word \<Rightarrow> 8 word list \<Rightarrow> nat \<Rightarrow> CANFrame" where
  "data_frame ident b ts bytes cnt =
     \<lparr>frameId = ident, hasExtendedFrameFormat = False, frameType = DataFrame, timeStamp = ts,
      payload = bytes, bus = b, isReceived = True, timedelta = 0, frameCount = cnt\<rparr>"

text \<open>A key is enabled in a filter table when the table maps it to \<open>true\<close>.\<close>

definition enabled :: "(int \<times> bool) list \<Rightarrow> int \<Rightarrow> bool" where
  "enabled m k = (map_of m k = Some True)"

subsection \<open>Sorting\<close>

text \<open>
  The columns of the table. The enumeration \<open>Column\<close> is declared in the header, which
  is not among the sources; these are the enumerators the code names. \<open>sortByColumn\<close>
  takes an \<open>int\<close> and converts it with \<open>Column(column)\<close>; the model takes the column.
\<close>

datatype Column = TimeStamp | FrameId | Extended | Remote | Direction | Bus | Length | ASCII
  | Data | CANOpenFunction | CANOpenNode | NUM_COLUMN

text \<open>
  The loop of the \<open>Data\<close> and \<open>ASCII\<close> key:
  \<open>temp += static_cast<uint64_t>(frame.payload()[i]) << (56 - (8 * i))\<close>. The element of
  the \<open>QByteArray\<close> is a \<open>char\<close>, signed on the platforms the project builds for, so the
  conversion extends the sign. From the ninth byte on the shift count is negative.
\<close>

fun payload_sum :: "8 word list \<Rightarrow> int \<Rightarrow> 64 word \<Rightarrow> error + 64 word" where
  "payload_sum [] i temp = Inr temp"
| "payload_sum (c # cs) i temp =
     (if 0 \<le> 56 - 8 * i \<and> 56 - 8 * i < 64
      then payload_sum cs (i + 1) (temp + push_bit (nat (56 - 8 * i)) (scast c))
      else Inl ShiftOutOfRange)"

text \<open>The \<open>switch\<close> of \<open>getCANFrameVal\<close> on a frame; \<open>ow\<close> is \<open>overwriteDups\<close>.\<close>

definition frame_val :: "bool \<Rightarrow> CANFrame \<Rightarrow> Column \<Rightarrow> error + 64 word" where
  "frame_val ow frame col =
     (case col of
        TimeStamp \<Rightarrow> Inr (if ow then timedelta frame else timeStamp frame)
      | FrameId \<Rightarrow> Inr (ucast (frameId frame))
      | Extended \<Rightarrow> Inr (if hasExtendedFrameFormat frame then 1 else 0)
      | Remote \<Rightarrow>
          Inr (if ow then of_nat (frameCount frame)
               else if frameType frame = RemoteRequestFrame then 1 else 0)
      | Direction \<Rightarrow> Inr (if isReceived frame then 1 else 0)
      | Bus \<Rightarrow> Inr (word_of_int (bus frame))
      | Length \<Rightarrow> Inr (of_nat (length (payload frame)))
      | ASCII \<Rightarrow> payload_sum (payload frame) 0 0
      | Data \<Rightarrow> payload_sum (payload frame) 0 0
      | CANOpenFunction \<Rightarrow> Inr (ucast (drop_bit 7 (frameId frame)))
      | CANOpenNode \<Rightarrow> Inr (ucast (frameId frame AND 0x7f))
      | NUM_COLUMN \<Rightarrow> Inr 0)"

text \<open>
  \<open>getCANFrameVal(row, col)\<close> reads the member \<open>frames\<close>. A row at or above the count
  gives 0; a negative row would index the vector out of range.
\<close>

definition getCANFrameVal :: "CANFrameModel \<Rightarrow> int \<Rightarrow> Column \<Rightarrow> error + 64 word" where
  "getCANFrameVal s row col =
     (if row \<ge> int (length (frames s)) then Inr 0
      else if row < 0 then Inl IndexOutOfRange
      else frame_val (overwriteDups s) (frames s ! nat row) col)"

text \<open>
  The exchange of two rows: \<open>temp = frames->at(i); frames->replace(i, frames->at(j));
  frames->replace(j, temp)\<close>. In \<open>sortByColumn\<close> the vector passed to the sort is the
  member \<open>frames\<close> itself, the one \<open>getCANFrameVal\<close> reads, so the sort is a function
  on the model.
\<close>

definition swap_frames :: "int \<Rightarrow> int \<Rightarrow> CANFrameModel \<Rightarrow> error + CANFrameModel" where
  "swap_frames i j s =
     (if 0 \<le> i \<and> i < int (length (frames s)) \<and> 0 \<le> j \<and> j < int (length (frames s))
      then Inr (s\<lparr>frames := (frames s)[nat i := frames s ! nat j, nat j := frames s ! nat i]\<rparr>)
      else Inl IndexOutOfRange)"

text \<open>
  \<open>qSortCANFrameAsc\<close>. The two inner loops \<open>do i++ while (i < upperBound && key(i) < piv)\<close>
  and \<open>do j-- while (j > lowerBound && key(j) > piv)\<close>, from the value of \<open>i\<close> (of \<open>j\<close>)
  before the loop to its value after it.
\<close>

function asc_up :: "CANFrameModel \<Rightarrow> Column \<Rightarrow> 64 word \<Rightarrow> int \<Rightarrow> int \<Rightarrow> error + int" where
  "asc_up s column piv upperBound i =
     (let i' = i + 1 in
      if i' < upperBound then
        (case getCANFrameVal s i' column of
           Inl e \<Rightarrow> Inl e
         | Inr v \<Rightarrow> if v < piv then asc_up s column piv upperBound i' else Inr i')
      else Inr i')"
  by pat_completeness auto
termination
  by (relation "measure (\<lambda>(s, column, piv, upperBound, i). nat (upperBound - i))") auto

declare asc_up.simps [simp del]

function asc_down :: "CANFrameModel \<Rightarrow> Column \<Rightarrow> 64 word \<Rightarrow> int \<Rightarrow> int \<Rightarrow> error + int" where
  "asc_down s column piv lowerBound j =
     (let j' = j - 1 in
      if j' > lowerBound then
        (case getCANFrameVal s j' column of
           Inl e \<Rightarrow> Inl e
         | Inr v \<Rightarrow> if v > piv then asc_down s column piv lowerBound j' else Inr j')
      else Inr j')"
  by pat_completeness auto
termination
  by (relation "measure (\<lambda>(s, column, piv, lowerBound, j). nat (j - lowerBound))") auto

declare asc_down.simps [simp del]

lemma asc_up_gt: "asc_up s column piv upperBound i = Inr i' \<Longrightarrow> i < i'"
proof (induction s column piv upperBound i rule: asc_up.induct)
  case (1 s column piv upperBound i)
  note eq = asc_up.simps [of s column piv upperBound i]
  show ?case
    using "1.prems" "1.IH" unfolding eq
    by (fastforce simp: Let_def split: if_splits sum.splits)
qed

lemma asc_down_lt: "asc_down s column piv lowerBound j = Inr j' \<Longrightarrow> j' < j"
proof (induction s column piv lowerBound j rule: asc_down.induct)
  case (1 s column piv lowerBound j)
  note eq = asc_down.simps [of s column piv lowerBound j]
  show ?case
    using "1.prems" "1.IH" unfolding eq
    by (fastforce simp: Let_def split: if_splits sum.splits)
qed

text \<open>
  The \<open>for (;;)\<close> loop: both scans, then the exchange and another round when \<open>i < j\<close>,
  and \<open>p = j\<close> otherwise. It ends because each round moves \<open>i\<close> up and \<open>j\<close> down.
\<close>

function asc_partition ::
  "Column \<Rightarrow> 64 word \<Rightarrow> int \<Rightarrow> int \<Rightarrow> int \<Rightarrow> int \<Rightarrow> CANFrameModel \<Rightarrow> error + (CANFrameModel \<times> int)" where
  "asc_partition column piv lowerBound upperBound i j s =
     (case asc_up s column piv upperBound i of
        Inl e \<Rightarrow> Inl e
      | Inr i' \<Rightarrow>
          (case asc_down s column piv lowerBound j of
             Inl e \<Rightarrow> Inl e
           | Inr j' \<Rightarrow>
               if i' < j' then
                 (case swap_frames i' j' s of
                    Inl e \<Rightarrow> Inl e
                  | Inr s' \<Rightarrow> asc_partition column piv lowerBound upperBound i' j' s')
               else Inr (s, j')))"
  by pat_completeness auto
termination
proof (relation "measure (\<lambda>(column, piv, lowerBound, upperBound, i, j, s). nat (j - i))", goal_cases)
  case 1
  then show ?case by simp
next
  case (2 column piv lowerBound upperBound i j s i' j' s')
  then show ?case
    using asc_up_gt [of s column piv upperBound i i'] asc_down_lt [of s column piv lowerBound j j']
    by simp
qed

declare asc_partition.simps [simp del]


text \<open>
  Where the loop stops: the result \<open>p\<close> is below the \<open>j\<close> it started from and not below
  \<open>lowerBound\<close>, and, started on \<open>lowerBound - 1\<close> and \<open>upperBound + 1\<close> with the key of
  the middle row as pivot, below \<open>upperBound\<close>. This is what makes the two recursive
  calls work on shorter ranges.
\<close>

lemma asc_down_ge: "asc_down s column piv lowerBound j = Inr j' \<Longrightarrow> lowerBound < j \<Longrightarrow> lowerBound \<le> j'"
proof (induction s column piv lowerBound j rule: asc_down.induct)
  case (1 s column piv lowerBound j)
  note eq = asc_down.simps [of s column piv lowerBound j]
  show ?case
    using "1.prems" "1.IH" unfolding eq
    by (fastforce simp: Let_def split: if_splits sum.splits)
qed

lemma asc_up_stops:
  "asc_up s column piv upperBound i = Inr i' \<Longrightarrow> i < k \<Longrightarrow> getCANFrameVal s k column = Inr v
     \<Longrightarrow> \<not> v < piv \<Longrightarrow> i' \<le> k"
proof (induction s column piv upperBound i rule: asc_up.induct)
  case (1 s column piv upperBound i)
  note eq = asc_up.simps [of s column piv upperBound i]
  show ?case
  proof (cases "i + 1 = k")
    case True
    then show ?thesis
      using "1.prems" unfolding eq by (auto simp: Let_def split: if_splits)
  next
    case False
    then have "i + 1 < k" using "1.prems"(2) by simp
    then show ?thesis
      using "1.prems" "1.IH" unfolding eq
      by (fastforce simp: Let_def split: if_splits sum.splits)
  qed
qed

lemma asc_down_stops:
  "asc_down s column piv lowerBound j = Inr j' \<Longrightarrow> k < j \<Longrightarrow> getCANFrameVal s k column = Inr v
     \<Longrightarrow> \<not> v > piv \<Longrightarrow> k \<le> j'"
proof (induction s column piv lowerBound j rule: asc_down.induct)
  case (1 s column piv lowerBound j)
  note eq = asc_down.simps [of s column piv lowerBound j]
  show ?case
  proof (cases "j - 1 = k")
    case True
    then show ?thesis
      using "1.prems" unfolding eq by (auto simp: Let_def split: if_splits)
  next
    case False
    then have "k < j - 1" using "1.prems"(2) by simp
    then show ?thesis
      using "1.prems" "1.IH" unfolding eq
      by (fastforce simp: Let_def split: if_splits sum.splits)
  qed
qed

lemma asc_partition_cases:
  assumes "asc_partition column piv lowerBound upperBound i j s = Inr (s', p)"
  obtains (stop) i' j' where
      "asc_up s column piv upperBound i = Inr i'" "asc_down s column piv lowerBound j = Inr j'"
      "\<not> i' < j'" "s' = s" "p = j'"
    | (swap) i' j' s1 where
      "asc_up s column piv upperBound i = Inr i'" "asc_down s column piv lowerBound j = Inr j'"
      "i' < j'" "swap_frames i' j' s = Inr s1"
      "asc_partition column piv lowerBound upperBound i' j' s1 = Inr (s', p)"
  using assms unfolding asc_partition.simps [of column piv lowerBound upperBound i j s]
  by (auto split: sum.splits if_splits)

lemma asc_partition_lt:
  "asc_partition column piv lowerBound upperBound i j s = Inr (s', p) \<Longrightarrow> p < j"
proof (induction column piv lowerBound upperBound i j s rule: asc_partition.induct)
  case (1 column piv lowerBound upperBound i j s)
  from "1.prems" show ?case
  proof (cases rule: asc_partition_cases)
    case (stop i' j')
    then show ?thesis using asc_down_lt [OF stop(2)] by simp
  next
    case (swap i' j' s1)
    have "p < j'"
      using "1.IH" [OF swap(1,2,3,4,5)] .
    then show ?thesis using asc_down_lt [OF swap(2)] by simp
  qed
qed

lemma asc_partition_ge:
  "asc_partition column piv lowerBound upperBound i j s = Inr (s', p)
     \<Longrightarrow> lowerBound - 1 \<le> i \<Longrightarrow> lowerBound < j \<Longrightarrow> lowerBound \<le> p"
proof (induction column piv lowerBound upperBound i j s rule: asc_partition.induct)
  case (1 column piv lowerBound upperBound i j s)
  from "1.prems"(1) show ?case
  proof (cases rule: asc_partition_cases)
    case (stop i' j')
    then show ?thesis using asc_down_ge [OF stop(2) "1.prems"(3)] by simp
  next
    case (swap i' j' s1)
    show ?thesis
      using "1.IH" [OF swap(1,2,3,4,5)] asc_up_gt [OF swap(1)] swap(3) "1.prems"(2) by simp
  qed
qed

lemma sdiv_2_nonneg: "0 \<le> (a::int) \<Longrightarrow> a sdiv 2 = a div 2"
  by (cases "a = 0") (simp_all add: signed_divide_int_def)

lemma asc_partition_first:
  assumes "lowerBound < upperBound"
    and "getCANFrameVal s (lowerBound + (upperBound - lowerBound) sdiv 2) column = Inr piv"
    and "asc_partition column piv lowerBound upperBound (lowerBound - 1) (upperBound + 1) s = Inr (s', p)"
  shows "lowerBound \<le> p \<and> p < upperBound"
proof -
  define mid where "mid = lowerBound + (upperBound - lowerBound) sdiv 2"
  have mid: "lowerBound \<le> mid" "mid < upperBound"
    using assms(1) by (simp_all add: mid_def sdiv_2_nonneg)
  have km: "getCANFrameVal s mid column = Inr piv"
    using assms(2) by (simp add: mid_def)
  have lo: "lowerBound \<le> p"
    using asc_partition_ge [OF assms(3)] assms(1) by simp
  from assms(3) show ?thesis
  proof (cases rule: asc_partition_cases)
    case (stop i' j')
    have "i' \<le> mid"
      using asc_up_stops [OF stop(1) _ km] mid by simp
    moreover have "mid \<le> j'"
      using asc_down_stops [OF stop(2) _ km] mid by simp
    ultimately show ?thesis
      using lo stop(3,5) mid by simp
  next
    case (swap i' j' s1)
    have "p < j'" using swap(5) by (rule asc_partition_lt)
    moreover have "j' < upperBound + 1" using swap(2) by (rule asc_down_lt)
    ultimately show ?thesis using lo by simp
  qed
qed

text \<open>The recursive function. \<open>(upperBound - lowerBound) / 2\<close> truncates as C++ does.\<close>

function qSortCANFrameAsc :: "Column \<Rightarrow> int \<Rightarrow> int \<Rightarrow> CANFrameModel \<Rightarrow> error + CANFrameModel" where
  "qSortCANFrameAsc column lowerBound upperBound s =
     (if lowerBound < upperBound then
        (case getCANFrameVal s (lowerBound + (upperBound - lowerBound) sdiv 2) column of
           Inl e \<Rightarrow> Inl e
         | Inr piv \<Rightarrow>
             (case asc_partition column piv lowerBound upperBound (lowerBound - 1) (upperBound + 1) s of
                Inl e \<Rightarrow> Inl e
              | Inr (s', p) \<Rightarrow>
                  (case qSortCANFrameAsc column lowerBound p s' of
                     Inl e \<Rightarrow> Inl e
                   | Inr s'' \<Rightarrow> qSortCANFrameAsc column (p + 1) upperBound s'')))
      else Inr s)"
  by pat_completeness auto
termination
proof (relation "measure (\<lambda>(column, lowerBound, upperBound, s). nat (upperBound - lowerBound))",
    goal_cases)
  case 1
  then show ?case by simp
next
  case (2 column lowerBound upperBound s piv x s' p)
  then show ?case
    using asc_partition_first [of lowerBound upperBound s column piv s' p] by simp
next
  case (3 column lowerBound upperBound s piv x s' p s'')
  then show ?case
    using asc_partition_first [of lowerBound upperBound s column piv s' p] by simp
qed

declare qSortCANFrameAsc.simps [simp del]


text \<open>
  \<open>qSortCANFrameDesc\<close>: the same functions with the two comparisons of keys exchanged.
\<close>

function desc_up :: "CANFrameModel \<Rightarrow> Column \<Rightarrow> 64 word \<Rightarrow> int \<Rightarrow> int \<Rightarrow> error + int" where
  "desc_up s column piv upperBound i =
     (let i' = i + 1 in
      if i' < upperBound then
        (case getCANFrameVal s i' column of
           Inl e \<Rightarrow> Inl e
         | Inr v \<Rightarrow> if v > piv then desc_up s column piv upperBound i' else Inr i')
      else Inr i')"
  by pat_completeness auto
termination
  by (relation "measure (\<lambda>(s, column, piv, upperBound, i). nat (upperBound - i))") auto

declare desc_up.simps [simp del]

function desc_down :: "CANFrameModel \<Rightarrow> Column \<Rightarrow> 64 word \<Rightarrow> int \<Rightarrow> int \<Rightarrow> error + int" where
  "desc_down s column piv lowerBound j =
     (let j' = j - 1 in
      if j' > lowerBound then
        (case getCANFrameVal s j' column of
           Inl e \<Rightarrow> Inl e
         | Inr v \<Rightarrow> if v < piv then desc_down s column piv lowerBound j' else Inr j')
      else Inr j')"
  by pat_completeness auto
termination
  by (relation "measure (\<lambda>(s, column, piv, lowerBound, j). nat (j - lowerBound))") auto

declare desc_down.simps [simp del]

lemma desc_up_gt: "desc_up s column piv upperBound i = Inr i' \<Longrightarrow> i < i'"
proof (induction s column piv upperBound i rule: desc_up.induct)
  case (1 s column piv upperBound i)
  note eq = desc_up.simps [of s column piv upperBound i]
  show ?case
    using "1.prems" "1.IH" unfolding eq
    by (fastforce simp: Let_def split: if_splits sum.splits)
qed

lemma desc_down_lt: "desc_down s column piv lowerBound j = Inr j' \<Longrightarrow> j' < j"
proof (induction s column piv lowerBound j rule: desc_down.induct)
  case (1 s column piv lowerBound j)
  note eq = desc_down.simps [of s column piv lowerBound j]
  show ?case
    using "1.prems" "1.IH" unfolding eq
    by (fastforce simp: Let_def split: if_splits sum.splits)
qed

function desc_partition ::
  "Column \<Rightarrow> 64 word \<Rightarrow> int \<Rightarrow> int \<Rightarrow> int \<Rightarrow> int \<Rightarrow> CANFrameModel \<Rightarrow> error + (CANFrameModel \<times> int)" where
  "desc_partition column piv lowerBound upperBound i j s =
     (case desc_up s column piv upperBound i of
        Inl e \<Rightarrow> Inl e
      | Inr i' \<Rightarrow>
          (case desc_down s column piv lowerBound j of
             Inl e \<Rightarrow> Inl e
           | Inr j' \<Rightarrow>
               if i' < j' then
                 (case swap_frames i' j' s of
                    Inl e \<Rightarrow> Inl e
                  | Inr s' \<Rightarrow> desc_partition column piv lowerBound upperBound i' j' s')
               else Inr (s, j')))"
  by pat_completeness auto
termination
proof (relation "measure (\<lambda>(column, piv, lowerBound, upperBound, i, j, s). nat (j - i))", goal_cases)
  case 1
  then show ?case by simp
next
  case (2 column piv lowerBound upperBound i j s i' j' s')
  then show ?case
    using desc_up_gt [of s column piv upperBound i i'] desc_down_lt [of s column piv lowerBound j j']
    by simp
qed

declare desc_partition.simps [simp del]


lemma desc_down_ge: "desc_down s column piv lowerBound j = Inr j' \<Longrightarrow> lowerBound < j \<Longrightarrow> lowerBound \<le> j'"
proof (induction s column piv lowerBound j rule: desc_down.induct)
  case (1 s column piv lowerBound j)
  note eq = desc_down.simps [of s column piv lowerBound j]
  show ?case
    using "1.prems" "1.IH" unfolding eq
    by (fastforce simp: Let_def split: if_splits sum.splits)
qed

lemma desc_up_stops:
  "desc_up s column piv upperBound i = Inr i' \<Longrightarrow> i < k \<Longrightarrow> getCANFrameVal s k column = Inr v
     \<Longrightarrow> \<not> v > piv \<Longrightarrow> i' \<le> k"
proof (induction s column piv upperBound i rule: desc_up.induct)
  case (1 s column piv upperBound i)
  note eq = desc_up.simps [of s column piv upperBound i]
  show ?case
  proof (cases "i + 1 = k")
    case True
    then show ?thesis
      using "1.prems" unfolding eq by (auto simp: Let_def split: if_splits)
  next
    case False
    then have "i + 1 < k" using "1.prems"(2) by simp
    then show ?thesis
      using "1.prems" "1.IH" unfolding eq
      by (fastforce simp: Let_def split: if_splits sum.splits)
  qed
qed

lemma desc_down_stops:
  "desc_down s column piv lowerBound j = Inr j' \<Longrightarrow> k < j \<Longrightarrow> getCANFrameVal s k column = Inr v
     \<Longrightarrow> \<not> v < piv \<Longrightarrow> k \<le> j'"
proof (induction s column piv lowerBound j rule: desc_down.induct)
  case (1 s column piv lowerBound j)
  note eq = desc_down.simps [of s column piv lowerBound j]
  show ?case
  proof (cases "j - 1 = k")
    case True
    then show ?thesis
      using "1.prems" unfolding eq by (auto simp: Let_def split: if_splits)
  next
    case False
    then have "k < j - 1" using "1.prems"(2) by simp
    then show ?thesis
      using "1.prems" "1.IH" unfolding eq
      by (fastforce simp: Let_def split: if_splits sum.splits)
  qed
qed

lemma desc_partition_cases:
  assumes "desc_partition column piv lowerBound upperBound i j s = Inr (s', p)"
  obtains (stop) i' j' where
      "desc_up s column piv upperBound i = Inr i'" "desc_down s column piv lowerBound j = Inr j'"
      "\<not> i' < j'" "s' = s" "p = j'"
    | (swap) i' j' s1 where
      "desc_up s column piv upperBound i = Inr i'" "desc_down s column piv lowerBound j = Inr j'"
      "i' < j'" "swap_frames i' j' s = Inr s1"
      "desc_partition column piv lowerBound upperBound i' j' s1 = Inr (s', p)"
  using assms unfolding desc_partition.simps [of column piv lowerBound upperBound i j s]
  by (auto split: sum.splits if_splits)

lemma desc_partition_lt:
  "desc_partition column piv lowerBound upperBound i j s = Inr (s', p) \<Longrightarrow> p < j"
proof (induction column piv lowerBound upperBound i j s rule: desc_partition.induct)
  case (1 column piv lowerBound upperBound i j s)
  from "1.prems" show ?case
  proof (cases rule: desc_partition_cases)
    case (stop i' j')
    then show ?thesis using desc_down_lt [OF stop(2)] by simp
  next
    case (swap i' j' s1)
    have "p < j'"
      using "1.IH" [OF swap(1,2,3,4,5)] .
    then show ?thesis using desc_down_lt [OF swap(2)] by simp
  qed
qed

lemma desc_partition_ge:
  "desc_partition column piv lowerBound upperBound i j s = Inr (s', p)
     \<Longrightarrow> lowerBound - 1 \<le> i \<Longrightarrow> lowerBound < j \<Longrightarrow> lowerBound \<le> p"
proof (induction column piv lowerBound upperBound i j s rule: desc_partition.induct)
  case (1 column piv lowerBound upperBound i j s)
  from "1.prems"(1) show ?case
  proof (cases rule: desc_partition_cases)
    case (stop i' j')
    then show ?thesis using desc_down_ge [OF stop(2) "1.prems"(3)] by simp
  next
    case (swap i' j' s1)
    show ?thesis
      using "1.IH" [OF swap(1,2,3,4,5)] desc_up_gt [OF swap(1)] swap(3) "1.prems"(2) by simp
  qed
qed

lemma desc_partition_first:
  assumes "lowerBound < upperBound"
    and "getCANFrameVal s (lowerBound + (upperBound - lowerBound) sdiv 2) column = Inr piv"
    and "desc_partition column piv lowerBound upperBound (lowerBound - 1) (upperBound + 1) s = Inr (s', p)"
  shows "lowerBound \<le> p \<and> p < upperBound"
proof -
  define mid where "mid = lowerBound + (upperBound - lowerBound) sdiv 2"
  have mid: "lowerBound \<le> mid" "mid < upperBound"
    using assms(1) by (simp_all add: mid_def sdiv_2_nonneg)
  have km: "getCANFrameVal s mid column = Inr piv"
    using assms(2) by (simp add: mid_def)
  have lo: "lowerBound \<le> p"
    using desc_partition_ge [OF assms(3)] assms(1) by simp
  from assms(3) show ?thesis
  proof (cases rule: desc_partition_cases)
    case (stop i' j')
    have "i' \<le> mid"
      using desc_up_stops [OF stop(1) _ km] mid by simp
    moreover have "mid \<le> j'"
      using desc_down_stops [OF stop(2) _ km] mid by simp
    ultimately show ?thesis
      using lo stop(3,5) mid by simp
  next
    case (swap i' j' s1)
    have "p < j'" using swap(5) by (rule desc_partition_lt)
    moreover have "j' < upperBound + 1" using swap(2) by (rule desc_down_lt)
    ultimately show ?thesis using lo by simp
  qed
qed

function qSortCANFrameDesc :: "Column \<Rightarrow> int \<Rightarrow> int \<Rightarrow> CANFrameModel \<Rightarrow> error + CANFrameModel" where
  "qSortCANFrameDesc column lowerBound upperBound s =
     (if lowerBound < upperBound then
        (case getCANFrameVal s (lowerBound + (upperBound - lowerBound) sdiv 2) column of
           Inl e \<Rightarrow> Inl e
         | Inr piv \<Rightarrow>
             (case desc_partition column piv lowerBound upperBound (lowerBound - 1) (upperBound + 1) s of
                Inl e \<Rightarrow> Inl e
              | Inr (s', p) \<Rightarrow>
                  (case qSortCANFrameDesc column lowerBound p s' of
                     Inl e \<Rightarrow> Inl e
                   | Inr s'' \<Rightarrow> qSortCANFrameDesc column (p + 1) upperBound s'')))
      else Inr s)"
  by pat_completeness auto
termination
proof (relation "measure (\<lambda>(column, lowerBound, upperBound, s). nat (upperBound - lowerBound))",
    goal_cases)
  case 1
  then show ?case by simp
next
  case (2 column lowerBound upperBound s piv x s' p)
  then show ?case
    using desc_partition_first [of lowerBound upperBound s column piv s' p] by simp
next
  case (3 column lowerBound upperBound s piv x s' p s'')
  then show ?case
    using desc_partition_first [of lowerBound upperBound s column piv s' p] by simp
qed

declare qSortCANFrameDesc.simps [simp del]


text \<open>
  \<open>sortByColumn\<close>: the direction flag is flipped first, the store is sorted in the new
  direction from row 0 to the last row, and the filtered view is refreshed.
\<close>

definition sortByColumn :: "Column \<Rightarrow> CANFrameModel \<Rightarrow> error + CANFrameModel" where
  "sortByColumn column s =
     (let s1 = s\<lparr>sortDirAsc := \<not> sortDirAsc s\<rparr> in
      case (if sortDirAsc s1
            then qSortCANFrameAsc column 0 (int (length (frames s1)) - 1) s1
            else qSortCANFrameDesc column 0 (int (length (frames s1)) - 1) s1) of
        Inl e \<Rightarrow> Inl e
      | Inr s2 \<Rightarrow> Inr (sendRefresh s2))"

subsection \<open>Notions for the proofs about sorting\<close>

text \<open>
  The key of a frame as a value (0 where \<open>frame_val\<close> is undefined), the frames whose key
  is defined, and the key of a row of the model.
\<close>

definition frame_key :: "bool \<Rightarrow> Column \<Rightarrow> CANFrame \<Rightarrow> 64 word" where
  "frame_key ow col f = (case frame_val ow f col of Inr v \<Rightarrow> v | Inl e \<Rightarrow> 0)"

definition keys_defined :: "bool \<Rightarrow> Column \<Rightarrow> CANFrame list \<Rightarrow> bool" where
  "keys_defined ow col fr = (\<forall>f \<in> set fr. frame_val ow f col = Inr (frame_key ow col f))"

definition row_key :: "CANFrameModel \<Rightarrow> Column \<Rightarrow> int \<Rightarrow> 64 word" where
  "row_key s col k = frame_key (overwriteDups s) col (frames s ! nat k)"

text \<open>
  What a sort of the rows \<open>lo\<close> to \<open>hi\<close> may do to the store: it permutes the store, leaves
  the rows outside the range in place, and every row of the range holds a frame that was
  in the range before.
\<close>

definition seg_rel :: "int \<Rightarrow> int \<Rightarrow> CANFrame list \<Rightarrow> CANFrame list \<Rightarrow> bool" where
  "seg_rel lo hi fr fr' =
     (length fr' = length fr \<and> mset fr' = mset fr
      \<and> (\<forall>k. 0 \<le> k \<and> k < int (length fr) \<and> (k < lo \<or> hi < k) \<longrightarrow> fr' ! nat k = fr ! nat k)
      \<and> (\<forall>k. lo \<le> k \<and> k \<le> hi \<longrightarrow> (\<exists>k'. lo \<le> k' \<and> k' \<le> hi \<and> fr' ! nat k = fr ! nat k')))"

text \<open>The payloads of classic CAN frames: at most 8 bytes (the data model's invariant).\<close>

definition payloads_fit :: "CANFrame list \<Rightarrow> bool" where
  "payloads_fit fr = list_all (\<lambda>f. length (payload f) \<le> 8) fr"

text \<open>
  The key of a column in the words of the specification (section 4.4), to compare
  \<open>getCANFrameVal\<close> with. Timestamp: the inter-arrival delta in overwrite (dedup) mode,
  else the raw time stamp. Identifier: the raw identifier. Extended: 1 or 0.
  Remote/Count: the sequence count in overwrite mode, else 1 for a remote frame and 0
  otherwise. Direction: 1 if received, else 0. Bus: the bus index. Length: the payload
  byte length. Data/ASCII: the first 8 payload bytes packed big-endian into one 64-bit
  word, a shorter payload padded with zeros, so that byte \<open>i\<close> takes the bits
  \<open>56 - 8 * i\<close> to \<open>63 - 8 * i\<close>. The specification's table has no row for the CANopen
  function and node columns; their key here is what the column shows, the function code
  (the identifier shifted right by 7) and the node id (its low 7 bits), and the
  enumerator \<open>NUM_COLUMN\<close>, which is not a column, has the key 0.
\<close>

fun pack_be :: "8 word list \<Rightarrow> nat \<Rightarrow> 64 word" where
  "pack_be [] i = 0"
| "pack_be (c # cs) i =
     (if i < 8 then push_bit (56 - 8 * i) (ucast c) OR pack_be cs (Suc i) else 0)"

definition spec_key :: "bool \<Rightarrow> Column \<Rightarrow> CANFrame \<Rightarrow> 64 word" where
  "spec_key dedup col f =
     (case col of
        TimeStamp \<Rightarrow> (if dedup then timedelta f else timeStamp f)
      | FrameId \<Rightarrow> ucast (frameId f)
      | Extended \<Rightarrow> (if hasExtendedFrameFormat f then 1 else 0)
      | Remote \<Rightarrow>
          (if dedup then of_nat (frameCount f)
           else if frameType f = RemoteRequestFrame then 1 else 0)
      | Direction \<Rightarrow> (if isReceived f then 1 else 0)
      | Bus \<Rightarrow> word_of_int (bus f)
      | Length \<Rightarrow> of_nat (length (payload f))
      | ASCII \<Rightarrow> pack_be (payload f) 0
      | Data \<Rightarrow> pack_be (payload f) 0
      | CANOpenFunction \<Rightarrow> ucast (drop_bit 7 (frameId f))
      | CANOpenNode \<Rightarrow> ucast (frameId f AND 0x7f)
      | NUM_COLUMN \<Rightarrow> 0)"

text \<open>The stores whose payloads have at most 8 bytes, each byte below \<open>0x80\<close>.\<close>

definition payloads_7bit :: "CANFrame list \<Rightarrow> bool" where
  "payloads_7bit fr =
     list_all (\<lambda>f. length (payload f) \<le> 8 \<and> list_all (\<lambda>c. c < 0x80) (payload f)) fr"

text \<open>
  The model after the constructor and the bulk ingestion of two frames with the payloads
  \<open>01 00\<close> and \<open>01 80\<close>.
\<close>

definition two_frames :: CANFrameModel where
  "two_frames =
     insertFrames [data_frame 0x181 0 0 [0x01, 0x00] 1, data_frame 0x182 0 0 [0x01, 0x80] 1]
       CANFrameModel_ctor"

text \<open>A store of three frames with one payload byte each, for the concrete scenario.\<close>

definition three_frames :: CANFrameModel where
  "three_frames =
     CANFrameModel_ctor\<lparr>frames := [data_frame 0x181 0 0 [3] 1, data_frame 0x182 0 0 [1] 1,
                                   data_frame 0x183 0 0 [2] 1]\<rparr>"


subsection \<open>Notions for the overwrite-mode invariant\<close>

text \<open>
  The pair that overwrite mode keys a row by, the number of frames of a list with a given
  pair, and the invariant of the full store after the frames \<open>ingested\<close>: one row for
  each pair, whose count is the number of ingested frames of the pair.
\<close>

definition frame_pair :: "CANFrame \<Rightarrow> 32 word \<times> int" where
  "frame_pair f = (frameId f, bus f)"

definition occurrences :: "32 word \<times> int \<Rightarrow> CANFrame list \<Rightarrow> nat" where
  "occurrences p fs = length (filter (\<lambda>f. frame_pair f = p) fs)"

definition dedup_inv :: "CANFrameModel \<Rightarrow> CANFrame list \<Rightarrow> bool" where
  "dedup_inv s ingested =
     (overwriteDups s
      \<and> distinct (map frame_pair (frames s))
      \<and> set (map frame_pair (frames s)) = set (map frame_pair ingested)
      \<and> (\<forall>row \<in> set (frames s). frameCount row = occurrences (frame_pair row) ingested))"

section \<open>Decoding: concrete layouts\<close>

text \<open>
  C1, as stated: with the payload \<open>[0x12, 0x34]\<close>, start bit 0 and 16 bits, the big-endian
  decode would be \<open>0x1234\<close>. It is not: the Motorola traversal starts at bit 0 of byte 0,
  jumps to bit 15, walks down to bit 8 and jumps to bit 23, which is in byte 2, outside the
  two-byte payload, so the function takes its \<open>return 0\<close>.
\<close>

theorem C1_big_endian_start0_counterexample:
  "processIntegerSignal [0x12, 0x34] 0 16 False False \<noteq> Inr 0x1234"
  by code_simp

text \<open>
  C1, amended: for the payload \<open>[0x12, 0x34]\<close> and 16 unsigned bits, the little-endian
  decode from start bit 0 is \<open>0x3412\<close> (13330); the big-endian decode from start bit 0
  is 0, because its traversal leaves the payload; the big-endian decode that yields
  \<open>0x1234\<close> (4660) is the one from start bit 7, the most significant bit of byte 0,
  which is where a Motorola signal starts.
\<close>

theorem C1_decode_16_bits:
  "processIntegerSignal [0x12, 0x34] 0 16 True False = Inr 0x3412
   \<and> processIntegerSignal [0x12, 0x34] 0 16 False False = Inr 0
   \<and> processIntegerSignal [0x12, 0x34] 7 16 False False = Inr 0x1234"
  by code_simp

section \<open>Decoding: every layout\<close>

lemma sdiv_nonneg: "0 \<le> (b::int) \<Longrightarrow> b sdiv 8 = b div 8"
  by (cases "b = 0") (simp_all add: signed_divide_int_def)

lemma smod_nonneg: "0 \<le> (b::int) \<Longrightarrow> b smod 8 = b mod 8"
  by (cases "b = 0") (simp_all add: signed_modulo_int_def)

lemma data_bit_nonneg: "0 \<le> b \<Longrightarrow> data_bit data b = Inr (payload_bit data b)"
  by (simp add: data_bit_def payload_bit_def sdiv_nonneg smod_nonneg pos_imp_zdiv_neg_iff)

lemma be_next_nonneg: "0 \<le> b \<Longrightarrow> 0 \<le> be_next b"
  unfolding be_next_def by (simp add: smod_nonneg) presburger

lemma be_next_le: "be_next b \<le> b + 15"
  by (simp add: be_next_def)

lemma shl_u64_ok: "0 \<le> n \<Longrightarrow> n < 64 \<Longrightarrow> shl_u64 n = Inr (2 ^ nat n)"
  by (simp add: shl_u64_def push_bit_eq_mult)

lemma int32_ok: "0 \<le> x \<Longrightarrow> x < 2 ^ 31 \<Longrightarrow> int32 x = Inr x"
  by (simp add: int32_def is_int32_def)

lemma le_loop_done: "\<not> bitpos < sigSize \<Longrightarrow> le_loop data sigSize bitpos b result = Inr (Finished result)"
  by (subst le_loop.simps) simp

lemma be_loop_done: "\<not> bitpos < sigSize \<Longrightarrow> be_loop data sigSize bitpos b result = Inr (Finished result)"
  by (subst be_loop.simps) simp

lemma le_loop_step:
  assumes "0 \<le> bitpos" and "bitpos \<le> b" and "b + 1 < 2 ^ 31"
  shows "le_loop data sigSize bitpos b result =
     (if bitpos < sigSize then
        (if b < 64 then
           (if int (length data) \<le> b div 8 then Inr (Returned 0)
            else le_loop data sigSize (bitpos + 1) (b + 1)
                   (if payload_bit data b then result + 2 ^ nat bitpos else result))
         else le_loop data sigSize (bitpos + 1) (b + 1) result)
      else Inr (Finished result))"
proof -
  have b0: "0 \<le> b" using assms by simp
  have sh: "b < 64 \<Longrightarrow> shl_u64 bitpos = Inr (2 ^ nat bitpos)"
    using assms by (simp add: shl_u64_ok)
  have nx: "int32 (b + 1) = Inr (b + 1)"
    using b0 assms(3) by (intro int32_ok) simp_all
  show ?thesis
    by (subst le_loop.simps) (simp add: sdiv_nonneg [OF b0] data_bit_nonneg [OF b0] sh nx)
qed

lemma be_loop_step:
  assumes "0 \<le> bitpos" and "0 \<le> b" and "sigSize \<le> 64" and "b + 15 < 2 ^ 31"
  shows "be_loop data sigSize bitpos b result =
     (if bitpos < sigSize then
        (if b < 64 then
           (if int (length data) \<le> b div 8 then Inr (Returned 0)
            else be_loop data sigSize (bitpos + 1) (be_next b)
                   (if payload_bit data b then result + 2 ^ nat (sigSize - bitpos - 1)
                    else result))
         else be_loop data sigSize (bitpos + 1) (be_next b) result)
      else Inr (Finished result))"
proof -
  have sh: "bitpos < sigSize \<Longrightarrow> shl_u64 (sigSize - bitpos - 1) = Inr (2 ^ nat (sigSize - bitpos - 1))"
    using assms by (simp add: shl_u64_ok)
  have nx: "int32 (be_next b) = Inr (be_next b)"
    using be_next_nonneg [OF assms(2)] be_next_le [of b] assms(4) by (intro int32_ok) simp_all
  show ?thesis
    by (subst be_loop.simps) (simp add: sdiv_nonneg [OF assms(2)] data_bit_nonneg [OF assms(2)] sh nx)
qed

lemma add_new_bit:
  fixes r :: "64 word"
  assumes "\<not> bit r k"
  shows "bit (r + 2 ^ k) i = (bit r i \<or> (i = k \<and> k < 64))"
proof -
  have "r + 2 ^ k = r OR 2 ^ k"
    by (rule disjunctive_add) (use assms in \<open>auto simp: bit_simps\<close>)
  then show ?thesis
    by (auto simp: bit_simps)
qed

lemma le_inv_step:
  assumes "0 \<le> bitpos" and "le_inv bitpos r"
  shows "le_inv (bitpos + 1) r" and "le_inv (bitpos + 1) (r + 2 ^ nat bitpos)"
    and "bit (r + 2 ^ nat bitpos) i = (bit r i \<or> (i = nat bitpos \<and> nat bitpos < 64))"
proof -
  show "le_inv (bitpos + 1) r"
    using assms(2) by (auto simp: le_inv_def)
  have nb: "\<not> bit r (nat bitpos)"
  proof
    assume "bit r (nat bitpos)"
    then have "int (nat bitpos) < bitpos"
      using assms(2) unfolding le_inv_def by blast
    then show False using assms(1) by simp
  qed
  show "le_inv (bitpos + 1) (r + 2 ^ nat bitpos)"
    unfolding le_inv_def using assms
    by (auto simp: add_new_bit [OF nb] le_inv_def)
  show "bit (r + 2 ^ nat bitpos) i = (bit r i \<or> (i = nat bitpos \<and> nat bitpos < 64))"
    by (rule add_new_bit [OF nb])
qed

lemma be_inv_step:
  assumes "0 \<le> bitpos" and "bitpos < sigSize" and "be_inv sigSize bitpos r"
  shows "be_inv sigSize (bitpos + 1) r"
    and "be_inv sigSize (bitpos + 1) (r + 2 ^ nat (sigSize - bitpos - 1))"
    and "bit (r + 2 ^ nat (sigSize - bitpos - 1)) i
           = (bit r i \<or> (i = nat (sigSize - bitpos - 1) \<and> nat (sigSize - bitpos - 1) < 64))"
proof -
  show "be_inv sigSize (bitpos + 1) r"
    using assms(3) by (auto simp: be_inv_def)
  have nb: "\<not> bit r (nat (sigSize - bitpos - 1))"
    using assms by (auto simp: be_inv_def)
  show "be_inv sigSize (bitpos + 1) (r + 2 ^ nat (sigSize - bitpos - 1))"
    unfolding be_inv_def using assms
    by (auto simp: add_new_bit [OF nb] be_inv_def)
  show "bit (r + 2 ^ nat (sigSize - bitpos - 1)) i
           = (bit r i \<or> (i = nat (sigSize - bitpos - 1) \<and> nat (sigSize - bitpos - 1) < 64))"
    by (rule add_new_bit [OF nb])
qed

lemma le_loop_result:
  assumes "0 \<le> bitpos" and "bitpos \<le> b" and "le_inv bitpos r" and "bitpos \<le> sigSize"
    and "b + (sigSize - bitpos) < 2 ^ 31"
  shows "\<exists>x. le_loop data sigSize bitpos b r = Inr x
              \<and> (case x of Returned v \<Rightarrow> v = 0 | Finished r' \<Rightarrow> le_inv sigSize r')"
  using assms
proof (induction "nat (sigSize - bitpos)" arbitrary: bitpos b r)
  case 0
  then have "bitpos = sigSize" by simp
  then show ?case
    using 0 by (subst le_loop_done) simp_all
next
  case (Suc n)
  then have lt: "bitpos < sigSize" by simp
  have n: "n = nat (sigSize - (bitpos + 1))" using Suc(2) by simp
  have b1: "b + 1 < 2 ^ 31" using Suc.prems(5) lt by simp
  note inv = le_inv_step(1,2) [OF Suc.prems(1,3)]
  have IH: "\<And>r'. le_inv (bitpos + 1) r' \<Longrightarrow>
      \<exists>x. le_loop data sigSize (bitpos + 1) (b + 1) r' = Inr x
              \<and> (case x of Returned v \<Rightarrow> v = 0 | Finished r'' \<Rightarrow> le_inv sigSize r'')"
    using Suc(1) [OF n] Suc.prems lt by simp
  show ?case
    using lt IH [OF inv(1)] IH [OF inv(2)]
    by (subst le_loop_step [OF Suc.prems(1,2) b1]) simp
qed

lemma be_loop_result:
  assumes "0 \<le> bitpos" and "0 \<le> b" and "sigSize \<le> 64" and "be_inv sigSize bitpos r"
    and "bitpos \<le> sigSize" and "b + 15 * (sigSize - bitpos) < 2 ^ 31"
  shows "\<exists>x. be_loop data sigSize bitpos b r = Inr x
              \<and> (case x of Returned v \<Rightarrow> v = 0 | Finished r' \<Rightarrow> be_inv sigSize sigSize r')"
  using assms
proof (induction "nat (sigSize - bitpos)" arbitrary: bitpos b r)
  case 0
  then have "bitpos = sigSize" by simp
  then show ?case
    using 0 by (subst be_loop_done) simp_all
next
  case (Suc n)
  then have lt: "bitpos < sigSize" by simp
  have n: "n = nat (sigSize - (bitpos + 1))" using Suc(2) by simp
  have b1: "b + 15 < 2 ^ 31" using Suc.prems(6) lt by simp
  have b2: "be_next b + 15 * (sigSize - (bitpos + 1)) < 2 ^ 31"
    using Suc.prems(6) be_next_le [of b] by simp
  note inv = be_inv_step(1,2) [OF Suc.prems(1) lt Suc.prems(4)]
  have IH: "\<And>r'. be_inv sigSize (bitpos + 1) r' \<Longrightarrow>
      \<exists>x. be_loop data sigSize (bitpos + 1) (be_next b) r' = Inr x
              \<and> (case x of Returned v \<Rightarrow> v = 0 | Finished r'' \<Rightarrow> be_inv sigSize sigSize r'')"
    using Suc(1) [OF n] Suc.prems lt be_next_nonneg [OF Suc.prems(2)] b2 by simp
  show ?case
    using lt IH [OF inv(1)] IH [OF inv(2)]
    by (subst be_loop_step [OF Suc.prems(1,2,3) b1]) simp
qed

lemma le_inv_0: "le_inv 0 0"
  by (simp add: le_inv_def)

lemma be_inv_0: "be_inv sigSize 0 0"
  by (simp add: be_inv_def)

lemma be_inv_le_inv: "be_inv sigSize sigSize r \<Longrightarrow> le_inv sigSize r"
  by (simp add: be_inv_def le_inv_def)

lemma layout_in_range_sum:
  assumes "layout_in_range startBit sigSize"
  shows "int32 (startBit + sigSize) = Inr (startBit + sigSize)"
    and "(startBit + sigSize) sdiv 8 = (startBit + sigSize) div 8"
  using assms by (simp_all add: layout_in_range_def int32_ok sdiv_nonneg)

lemma loop_result:
  assumes "layout_in_range startBit sigSize"
  shows "\<exists>x. (if littleEndian then le_loop data sigSize 0 startBit 0
               else be_loop data sigSize 0 startBit 0) = Inr x
              \<and> (case x of Returned v \<Rightarrow> v = 0 | Finished r \<Rightarrow> le_inv sigSize r)"
proof -
  have a: "0 \<le> startBit" "0 \<le> sigSize" "sigSize \<le> 64" "startBit + (sigSize - 0) < 2 ^ 31"
      "startBit + 15 * (sigSize - 0) < 2 ^ 31"
    using assms by (simp_all add: layout_in_range_def)
  show ?thesis
  proof (cases littleEndian)
    case True
    then show ?thesis
      using le_loop_result [OF _ a(1) le_inv_0 a(2) a(4), of data] by simp
  next
    case False
    obtain x where x: "be_loop data sigSize 0 startBit 0 = Inr x"
       and c: "case x of Returned v \<Rightarrow> v = 0 | Finished r \<Rightarrow> be_inv sigSize sigSize r"
      using be_loop_result [OF _ a(1) a(3) be_inv_0 a(2) a(5), of data] by auto
    show ?thesis
      using False x c by (auto split: loop_exit.splits intro: be_inv_le_inv)
  qed
qed

lemma le_loop_leaves:
  assumes "0 \<le> bitpos" and "bitpos \<le> b" and "bitpos + int k < sigSize" and "b + int k < 64"
    and "int (length data) \<le> (b + int k) div 8"
  shows "le_loop data sigSize bitpos b r = Inr (Returned 0)"
  using assms
proof (induction k arbitrary: bitpos b r)
  case 0
  then show ?case
    by (subst le_loop_step) simp_all
next
  case (Suc k)
  have "le_loop data sigSize (bitpos + 1) (b + 1) r' = Inr (Returned 0)" for r'
    using Suc.prems by (intro Suc.IH) (simp_all add: algebra_simps)
  then show ?case
    using Suc.prems by (subst le_loop_step) simp_all
qed

lemma be_loop_leaves:
  assumes "0 \<le> bitpos" and "0 \<le> b" and "sigSize \<le> 64" and "bitpos + int k < sigSize"
    and "be_position b k < 64" and "int (length data) \<le> be_position b k div 8"
    and "b + 15 * (sigSize - bitpos) < 2 ^ 31"
  shows "be_loop data sigSize bitpos b r = Inr (Returned 0)"
  using assms
proof (induction k arbitrary: bitpos b r)
  case 0
  then show ?case
    by (subst be_loop_step) simp_all
next
  case (Suc k)
  have b2: "be_next b + 15 * (sigSize - (bitpos + 1)) < 2 ^ 31"
    using Suc.prems(7) be_next_le [of b] by simp
  have "be_loop data sigSize (bitpos + 1) (be_next b) r' = Inr (Returned 0)" for r'
    using Suc.prems(1-6) be_next_nonneg [OF Suc.prems(2)] b2
    by (intro Suc.IH) (simp_all add: algebra_simps)
  then show ?case
    using Suc.prems by (subst be_loop_step) simp_all
qed

lemma leaves_payload_returns_0:
  assumes "layout_in_range startBit sigSize" and "leaves_payload data littleEndian startBit sigSize"
  shows "processIntegerSignal data startBit sigSize littleEndian isSigned = Inr 0"
proof -
  have a: "0 \<le> startBit" "sigSize \<le> 64" "startBit + 15 * (sigSize - 0) < 2 ^ 31"
    using assms(1) by (simp_all add: layout_in_range_def)
  obtain k where k: "k < nat sigSize" "bit_position littleEndian startBit k < 64"
      "int (length data) \<le> bit_position littleEndian startBit k div 8"
    using assms(2) by (auto simp: leaves_payload_def list_ex_iff)
  have ks: "0 + int k < sigSize" using k(1) by simp
  show ?thesis
  proof (cases littleEndian)
    case True
    have "le_loop data sigSize 0 startBit 0 = Inr (Returned 0)"
      using k(2,3) True
      by (intro le_loop_leaves [OF _ a(1) ks]) (simp_all add: bit_position_def)
    then show ?thesis
      using True by (simp add: processIntegerSignal_def Let_def layout_in_range_sum [OF assms(1)])
  next
    case False
    have "be_loop data sigSize 0 startBit 0 = Inr (Returned 0)"
      using k(2,3) False a(3)
      by (intro be_loop_leaves [OF _ a(1,2) ks]) (simp_all add: bit_position_def)
    then show ?thesis
      using False by (simp add: processIntegerSignal_def Let_def layout_in_range_sum [OF assms(1)])
  qed
qed

text \<open>
  The bits of the result when no iteration leaves the payload: iteration \<open>bitpos + j\<close>
  adds its bit exactly when its position is below 64 and the payload bit there is set.
\<close>

lemma ex_nat_0_Suc: "(\<exists>j::nat. P j) = (P 0 \<or> (\<exists>j. P (Suc j)))"
  by (metis not0_implies_Suc)

lemma le_loop_bits:
  assumes "0 \<le> bitpos" and "bitpos \<le> b" and "le_inv bitpos r" and "bitpos \<le> sigSize"
    and "b + (sigSize - bitpos) < 2 ^ 31"
    and "\<And>j. bitpos + int j < sigSize \<Longrightarrow> b + int j < 64 \<Longrightarrow> (b + int j) div 8 < int (length data)"
  shows "\<exists>r'. le_loop data sigSize bitpos b r = Inr (Finished r')
           \<and> (\<forall>n. bit r' n = (bit r n \<or> (\<exists>j. bitpos + int j < sigSize \<and> int n = bitpos + int j
                                           \<and> b + int j < 64 \<and> payload_bit data (b + int j))))"
  using assms
proof (induction "nat (sigSize - bitpos)" arbitrary: bitpos b r)
  case 0
  then have "bitpos = sigSize" by simp
  then show ?case
    by (subst le_loop_done) simp_all
next
  case (Suc m)
  then have lt: "bitpos < sigSize" by simp
  have m: "m = nat (sigSize - (bitpos + 1))" using Suc(2) by simp
  have b1: "b + 1 < 2 ^ 31" using Suc.prems(5) lt by simp
  note inv = le_inv_step [OF Suc.prems(1,3)]
  define r1 where "r1 = (if b < 64 \<and> payload_bit data b then r + 2 ^ nat bitpos else r)"
  have stay0: "b < 64 \<Longrightarrow> \<not> int (length data) \<le> b div 8"
    using Suc.prems(6) [of 0] lt by simp
  have step: "le_loop data sigSize bitpos b r = le_loop data sigSize (bitpos + 1) (b + 1) r1"
    using lt stay0 by (subst le_loop_step [OF Suc.prems(1,2) b1]) (simp add: r1_def)
  have inv1: "le_inv (bitpos + 1) r1"
    using inv(1,2) by (simp add: r1_def)
  have bits1: "bit r1 n = (bit r n \<or> (int n = bitpos \<and> b < 64 \<and> payload_bit data b))" for n
    using inv(3) [of n] Suc.prems(1,2) by (auto simp: r1_def)
  have stay1: "(b + 1 + int j) div 8 < int (length data)"
    if "bitpos + 1 + int j < sigSize" and "b + 1 + int j < 64" for j
    using Suc.prems(6) [of "Suc j"] that by (simp add: algebra_simps)
  obtain r' where r': "le_loop data sigSize (bitpos + 1) (b + 1) r1 = Inr (Finished r')"
    and bits: "\<And>n. bit r' n = (bit r1 n \<or> (\<exists>j. bitpos + 1 + int j < sigSize \<and> int n = bitpos + 1 + int j
                                           \<and> b + 1 + int j < 64 \<and> payload_bit data (b + 1 + int j)))"
    using Suc(1) [OF m _ _ inv1 _ _ stay1] Suc.prems(1,2,5) lt by auto
  have "bit r' n = (bit r n \<or> (\<exists>j. bitpos + int j < sigSize \<and> int n = bitpos + int j
                                           \<and> b + int j < 64 \<and> payload_bit data (b + int j)))" for n
    unfolding bits [of n] bits1 [of n]
    by (subst (2) ex_nat_0_Suc) (use lt in \<open>auto simp: algebra_simps\<close>)
  then show ?case
    unfolding step r' by simp
qed

lemma be_loop_bits:
  assumes "0 \<le> bitpos" and "0 \<le> b" and "sigSize \<le> 64" and "be_inv sigSize bitpos r"
    and "bitpos \<le> sigSize" and "b + 15 * (sigSize - bitpos) < 2 ^ 31"
    and "\<And>j. bitpos + int j < sigSize \<Longrightarrow> be_position b j < 64
            \<Longrightarrow> be_position b j div 8 < int (length data)"
  shows "\<exists>r'. be_loop data sigSize bitpos b r = Inr (Finished r')
           \<and> (\<forall>n. bit r' n = (bit r n \<or> (\<exists>j. bitpos + int j < sigSize
                                           \<and> int n = sigSize - bitpos - 1 - int j
                                           \<and> be_position b j < 64
                                           \<and> payload_bit data (be_position b j))))"
  using assms
proof (induction "nat (sigSize - bitpos)" arbitrary: bitpos b r)
  case 0
  then have "bitpos = sigSize" by simp
  then show ?case
    by (subst be_loop_done) simp_all
next
  case (Suc m)
  then have lt: "bitpos < sigSize" by simp
  have m: "m = nat (sigSize - (bitpos + 1))" using Suc(2) by simp
  have b1: "b + 15 < 2 ^ 31" using Suc.prems(6) lt by simp
  have b2: "be_next b + 15 * (sigSize - (bitpos + 1)) < 2 ^ 31"
    using Suc.prems(6) be_next_le [of b] by simp
  note inv = be_inv_step [OF Suc.prems(1) lt Suc.prems(4)]
  define r1 where "r1 = (if b < 64 \<and> payload_bit data b
                         then r + 2 ^ nat (sigSize - bitpos - 1) else r)"
  have stay0: "b < 64 \<Longrightarrow> \<not> int (length data) \<le> b div 8"
    using Suc.prems(7) [of 0] lt by simp
  have step: "be_loop data sigSize bitpos b r = be_loop data sigSize (bitpos + 1) (be_next b) r1"
    using lt stay0 by (subst be_loop_step [OF Suc.prems(1,2,3) b1]) (simp add: r1_def)
  have inv1: "be_inv sigSize (bitpos + 1) r1"
    using inv(1,2) by (simp add: r1_def)
  have bits1: "bit r1 n = (bit r n \<or> (int n = sigSize - bitpos - 1 \<and> b < 64 \<and> payload_bit data b))" for n
    using inv(3) [of n] Suc.prems(1,3) lt by (auto simp: r1_def)
  have stay1: "be_position (be_next b) j div 8 < int (length data)"
    if "bitpos + 1 + int j < sigSize" and "be_position (be_next b) j < 64" for j
    using Suc.prems(7) [of "Suc j"] that by (simp add: algebra_simps)
  obtain r' where r': "be_loop data sigSize (bitpos + 1) (be_next b) r1 = Inr (Finished r')"
    and bits: "\<And>n. bit r' n = (bit r1 n \<or> (\<exists>j. bitpos + 1 + int j < sigSize
                                           \<and> int n = sigSize - (bitpos + 1) - 1 - int j
                                           \<and> be_position (be_next b) j < 64
                                           \<and> payload_bit data (be_position (be_next b) j)))"
    using Suc(1) [OF m _ be_next_nonneg [OF Suc.prems(2)] Suc.prems(3) inv1 _ b2 stay1]
      Suc.prems(1) lt by auto
  have "bit r' n = (bit r n \<or> (\<exists>j. bitpos + int j < sigSize
                                           \<and> int n = sigSize - bitpos - 1 - int j
                                           \<and> be_position b j < 64
                                           \<and> payload_bit data (be_position b j)))" for n
    unfolding bits [of n] bits1 [of n]
    by (subst (2) ex_nat_0_Suc) (use lt in \<open>auto simp: algebra_simps\<close>)
  then show ?case
    unfolding step r' by simp
qed

lemma processIntegerSignal_bits:
  assumes "layout_in_range startBit sigSize"
    and "\<not> int (length data) < (startBit + sigSize) sdiv 8"
    and "\<not> leaves_payload data littleEndian startBit sigSize"
  shows "\<exists>v. processIntegerSignal data startBit sigSize littleEndian False = Inr v
           \<and> (\<forall>n. bit v n = (\<exists>k<nat sigSize. n = result_bit littleEndian sigSize k
                                \<and> bit_position littleEndian startBit k < 64
                                \<and> payload_bit data (bit_position littleEndian startBit k)))"
proof -
  have a: "0 \<le> startBit" "0 \<le> sigSize" "sigSize \<le> 64" "startBit + (sigSize - 0) < 2 ^ 31"
      "startBit + 15 * (sigSize - 0) < 2 ^ 31"
    using assms(1) by (simp_all add: layout_in_range_def)
  have stay: "bit_position littleEndian startBit k div 8 < int (length data)"
    if "k < nat sigSize" and "bit_position littleEndian startBit k < 64" for k
    using assms(3) that by (auto simp: leaves_payload_def list_ex_iff)
  note sum = layout_in_range_sum [OF assms(1)]
  show ?thesis
  proof (cases littleEndian)
    case True
    have st: "(startBit + int j) div 8 < int (length data)"
      if "0 + int j < sigSize" and "startBit + int j < 64" for j
      using stay [of j] that True by (simp add: bit_position_def)
    obtain r' where r': "le_loop data sigSize 0 startBit 0 = Inr (Finished r')"
      and bits: "\<And>n. bit r' n = (bit (0 :: 64 word) n \<or> (\<exists>j. 0 + int j < sigSize \<and> int n = 0 + int j
                                           \<and> startBit + int j < 64 \<and> payload_bit data (startBit + int j)))"
      using le_loop_bits [OF _ a(1) le_inv_0 a(2) a(4) st] by auto
    have "bit r' n = (\<exists>k<nat sigSize. n = result_bit littleEndian sigSize k
                                \<and> bit_position littleEndian startBit k < 64
                                \<and> payload_bit data (bit_position littleEndian startBit k))" for n
      unfolding bits [of n] using True by (auto simp: result_bit_def bit_position_def)
    then show ?thesis
      using True r' assms(2) by (simp add: processIntegerSignal_def Let_def sum)
  next
    case False
    have st: "be_position startBit j div 8 < int (length data)"
      if "0 + int j < sigSize" and "be_position startBit j < 64" for j
      using stay [of j] that False by (simp add: bit_position_def)
    obtain r' where r': "be_loop data sigSize 0 startBit 0 = Inr (Finished r')"
      and bits: "\<And>n. bit r' n = (bit (0 :: 64 word) n \<or> (\<exists>j. 0 + int j < sigSize
                                           \<and> int n = sigSize - 0 - 1 - int j
                                           \<and> be_position startBit j < 64
                                           \<and> payload_bit data (be_position startBit j)))"
      using be_loop_bits [OF _ a(1) a(3) be_inv_0 a(2) a(5) st] by auto
    have "bit r' n = (\<exists>k<nat sigSize. n = result_bit littleEndian sigSize k
                                \<and> bit_position littleEndian startBit k < 64
                                \<and> payload_bit data (bit_position littleEndian startBit k))" for n
    proof -
      have "(0 + int j < sigSize \<and> int n = sigSize - 0 - 1 - int j \<and> Q)
              = (j < nat sigSize \<and> n = nat sigSize - 1 - j \<and> Q)" for j Q
        by auto
      then show ?thesis
        unfolding bits [of n] using False by (simp add: result_bit_def bit_position_def)
    qed
    then show ?thesis
      using False r' assms(2) by (simp add: processIntegerSignal_def Let_def sum)
  qed
qed

lemma and_exp_eq_iff_bit:
  fixes r :: "64 word"
  assumes "k < 64"
  shows "(r AND 2 ^ k = 2 ^ k) = bit r k"
proof
  assume "r AND 2 ^ k = 2 ^ k"
  then have "bit (r AND 2 ^ k) k = bit (2 ^ k :: 64 word) k"
    by simp
  then show "bit r k"
    using assms by (simp add: bit_simps)
next
  assume "bit r k"
  then show "r AND 2 ^ k = 2 ^ k"
    by (intro bit_eqI) (auto simp: bit_simps)
qed

lemma uint_less_exp_if_bits_below:
  fixes r :: "64 word"
  assumes "\<And>i. bit r i \<Longrightarrow> i < n"
  shows "uint r < 2 ^ n"
proof -
  have "r = take_bit n r"
    by (rule bit_eqI) (use assms in \<open>auto simp: bit_simps\<close>)
  then have "uint r = take_bit n (uint r)"
    by (metis unsigned_take_bit_eq)
  then show ?thesis
    by (metis take_bit_int_less_exp)
qed

lemma sint_sign_extended:
  fixes r :: "64 word"
  assumes "n \<le> 63" and "\<And>i. bit r i \<Longrightarrow> i < n" 
  shows "sint (NOT (mask n) OR r) = uint r - 2 ^ n"
proof -
  have lt: "uint r < 2 ^ n"
    by (rule uint_less_exp_if_bits_below) (rule assms(2))
  have "NOT (mask n) OR r = - (2 ^ n) + r"
  proof -
    have "- (2 ^ n) + r = - (2 ^ n) OR r"
      by (rule disjunctive_add) (use assms(2) in \<open>auto simp: minus_exp_eq_not_mask bit_simps\<close>)
    then show ?thesis
      by (simp add: minus_exp_eq_not_mask)
  qed
  also have "\<dots> = word_of_int (uint r - 2 ^ n)"
    by simp
  finally have w: "NOT (mask n) OR r = word_of_int (uint r - 2 ^ n)" .
  have p: "(2::int) ^ n \<le> 2 ^ 63"
    using assms(1) by (intro power_increasing) simp_all
  have "sint (word_of_int (uint r - 2 ^ n) :: 64 word)
          = signed_take_bit (LENGTH(64) - 1) (uint r - 2 ^ n)"
    by (rule sint_sbintrunc')
  also have "\<dots> = uint r - 2 ^ n"
  proof -
    have "- (2 ^ 63) \<le> uint r - 2 ^ n"
      using p uint_ge_0 [of r] by linarith
    moreover have "uint r - 2 ^ n < 2 ^ 63"
      using lt by (simp add: less_le_trans [of _ 0]) 
    ultimately have "signed_take_bit 63 (uint r - 2 ^ n) = uint r - 2 ^ n"
      by (rule signed_take_bit_int_eq_self)
    then show ?thesis by simp
  qed
  finally show ?thesis
    unfolding w .
qed

lemma sign_extend_ok:
  assumes "1 \<le> sigSize" and "sigSize \<le> 63"
  shows "sign_extend r sigSize =
           Inr (if bit r (nat (sigSize - 1)) then NOT (mask (nat sigSize)) OR r else r)"
proof -
  have s1: "shl_u64 (sigSize - 1) = Inr (2 ^ nat (sigSize - 1))"
    using assms by (simp add: shl_u64_ok)
  have s2: "shl_u64 sigSize = Inr (2 ^ nat sigSize)"
    using assms by (simp add: shl_u64_ok)
  have b: "(r AND 2 ^ nat (sigSize - 1) = 2 ^ nat (sigSize - 1)) = bit r (nat (sigSize - 1))"
    using assms by (intro and_exp_eq_iff_bit) simp
  show ?thesis
    unfolding sign_extend_def s1 s2 
    by (simp add: b mask_eq_exp_minus_1)
qed

lemma processIntegerSignal_defined:
  assumes "layout_in_range startBit sigSize" and "isSigned \<Longrightarrow> sigSize \<le> 63"
  shows "\<exists>v. processIntegerSignal data startBit sigSize littleEndian isSigned = Inr v"
proof -
  have s1: "1 \<le> sigSize"
    using assms(1) by (simp add: layout_in_range_def)
  obtain x where x: "(if littleEndian then le_loop data sigSize 0 startBit 0
               else be_loop data sigSize 0 startBit 0) = Inr x"
    using loop_result [OF assms(1)] by blast
  show ?thesis
    using x s1 assms(2)
    by (cases x)
      (auto simp: processIntegerSignal_def Let_def sign_extend_ok layout_in_range_sum [OF assms(1)]
            split: if_splits)
qed

text \<open>
  Outside the layouts in range the function can overflow an \<open>int\<close>: with a start bit of
  2147483640 and 16 bits, or of 2147483647 and 2 bits, the sum \<open>startBit + sigSize\<close> is
  above the largest \<open>int\<close>.
\<close>

lemma sum_beyond_int_range:
  "processIntegerSignal [0x12] 2147483640 16 True False = Inl IntegerOverflow
   \<and> processIntegerSignal [0x12] 2147483647 2 True False = Inl IntegerOverflow"
  by code_simp

text \<open>
  C8, as stated: the function returns 0 for any input whose traversal reaches a byte
  position outside the payload. It does not when the position is 64 or above: such a
  bit is skipped, without the test of the byte position. With eight bytes \<open>0xFF\<close>, start
  bit 60 and 8 bits, the little-endian traversal reaches the bits 64 to 67 (byte 8) and
  returns 15; with start bit 56 the big-endian traversal jumps from bit 56 to bit 71 and
  returns 128.
\<close>

theorem C8_positions_from_64_are_skipped_counterexample:
  "list_ex (\<lambda>k. int (length [0xFF, 0xFF, 0xFF, 0xFF, 0xFF, 0xFF, 0xFF, 0xFF :: 8 word])
                   \<le> bit_position True 60 k div 8) [0..<nat 8]
   \<and> processIntegerSignal [0xFF, 0xFF, 0xFF, 0xFF, 0xFF, 0xFF, 0xFF, 0xFF] 60 8 True False \<noteq> Inr 0
   \<and> list_ex (\<lambda>k. int (length [0xFF, 0xFF, 0xFF, 0xFF, 0xFF, 0xFF, 0xFF, 0xFF :: 8 word])
                   \<le> bit_position False 56 k div 8) [0..<nat 8]
   \<and> processIntegerSignal [0xFF, 0xFF, 0xFF, 0xFF, 0xFF, 0xFF, 0xFF, 0xFF] 56 8 False False \<noteq> Inr 0"
  by code_simp

text \<open>
  C8, amended. With every \<open>int\<close> in the 32-bit range: the function returns 0 whenever
  \<open>(startBit + sigSize) / 8\<close> exceeds the payload length. For a layout in range (a start
  bit that is not negative, 1 to 64 bits, \<open>startBit + 15 * sigSize\<close> below \<open>2 ^ 31\<close>): it
  returns 0 whenever an iteration looks at a position below 64 whose byte is outside the
  payload; it yields a value for every payload (at most 63 bits when signed); and when it
  takes neither \<open>return 0\<close>, bit \<open>result_bit k\<close> of the unsigned result is set exactly
  when the position of iteration \<open>k\<close> is below 64 and the payload bit there is set, so
  that an iteration at a position of 64 or more is skipped and contributes nothing.
\<close>

theorem C8_out_of_range_returns_0:
  "(is_int32 startBit \<and> is_int32 sigSize \<and> is_int32 (startBit + sigSize)
      \<and> int (length data) < (startBit + sigSize) sdiv 8 \<longrightarrow>
      processIntegerSignal data startBit sigSize littleEndian isSigned = Inr 0)
   \<and> (layout_in_range startBit sigSize \<and> leaves_payload data littleEndian startBit sigSize \<longrightarrow>
      processIntegerSignal data startBit sigSize littleEndian isSigned = Inr 0)
   \<and> (layout_in_range startBit sigSize \<and> (if isSigned then sigSize \<le> 63 else sigSize \<le> 64) \<longrightarrow>
      (\<exists>v. processIntegerSignal data startBit sigSize littleEndian isSigned = Inr v))
   \<and> (layout_in_range startBit sigSize
      \<and> \<not> int (length data) < (startBit + sigSize) sdiv 8
      \<and> \<not> leaves_payload data littleEndian startBit sigSize \<longrightarrow>
      (\<exists>v. processIntegerSignal data startBit sigSize littleEndian False = Inr v
           \<and> (\<forall>n. bit v n = (\<exists>k<nat sigSize. n = result_bit littleEndian sigSize k
                                \<and> bit_position littleEndian startBit k < 64
                                \<and> payload_bit data (bit_position littleEndian startBit k)))))"
proof (intro conjI impI)
  assume "is_int32 startBit \<and> is_int32 sigSize \<and> is_int32 (startBit + sigSize)
      \<and> int (length data) < (startBit + sigSize) sdiv 8"
  then show "processIntegerSignal data startBit sigSize littleEndian isSigned = Inr 0"
    by (simp add: processIntegerSignal_def Let_def int32_def)
next
  assume "layout_in_range startBit sigSize \<and> leaves_payload data littleEndian startBit sigSize"
  then show "processIntegerSignal data startBit sigSize littleEndian isSigned = Inr 0"
    by (simp add: leaves_payload_returns_0)
next
  assume "layout_in_range startBit sigSize \<and> (if isSigned then sigSize \<le> 63 else sigSize \<le> 64)"
  then show "\<exists>v. processIntegerSignal data startBit sigSize littleEndian isSigned = Inr v"
    by (intro processIntegerSignal_defined) simp_all
next
  assume "layout_in_range startBit sigSize
      \<and> \<not> int (length data) < (startBit + sigSize) sdiv 8
      \<and> \<not> leaves_payload data littleEndian startBit sigSize"
  then show "\<exists>v. processIntegerSignal data startBit sigSize littleEndian False = Inr v
           \<and> (\<forall>n. bit v n = (\<exists>k<nat sigSize. n = result_bit littleEndian sigSize k
                                \<and> bit_position littleEndian startBit k < 64
                                \<and> payload_bit data (bit_position littleEndian startBit k)))"
    by (intro processIntegerSignal_bits) simp_all
qed

theorem C8_out_of_range_returns_0_witness:
  "is_int32 8 \<and> is_int32 16 \<and> is_int32 (8 + 16)
   \<and> int (length [0x12 :: 8 word]) < (8 + 16) sdiv 8
   \<and> processIntegerSignal [0x12] 8 16 True True = Inr 0
   \<and> layout_in_range 0 16
   \<and> leaves_payload [0x12, 0x34] False 0 16
   \<and> processIntegerSignal [0x12, 0x34] 0 16 False True = Inr 0
   \<and> (\<exists>v. processIntegerSignal [0x12, 0x34] 0 16 False True = Inr v)
   \<and> layout_in_range 60 8
   \<and> \<not> int (length [0xFF, 0xFF, 0xFF, 0xFF, 0xFF, 0xFF, 0xFF, 0xFF :: 8 word]) < (60 + 8) sdiv 8
   \<and> \<not> leaves_payload [0xFF, 0xFF, 0xFF, 0xFF, 0xFF, 0xFF, 0xFF, 0xFF] True 60 8
   \<and> (\<exists>v. processIntegerSignal [0xFF, 0xFF, 0xFF, 0xFF, 0xFF, 0xFF, 0xFF, 0xFF] 60 8 True False = Inr v
           \<and> bit v 3 \<and> \<not> bit v 4)"
proof -
  have h1: "is_int32 8 \<and> is_int32 16 \<and> is_int32 (8 + 16)
      \<and> int (length [0x12 :: 8 word]) < (8 + 16) sdiv 8"
    by code_simp
  have h2: "layout_in_range 0 16 \<and> leaves_payload [0x12, 0x34] False 0 16"
    by code_simp
  have h3: "layout_in_range 0 16 \<and> (if True then (16::int) \<le> 63 else (16::int) \<le> 64)"
    by code_simp
  have h4: "layout_in_range 60 8
      \<and> \<not> int (length [0xFF, 0xFF, 0xFF, 0xFF, 0xFF, 0xFF, 0xFF, 0xFF :: 8 word]) < (60 + 8) sdiv 8
      \<and> \<not> leaves_payload [0xFF, 0xFF, 0xFF, 0xFF, 0xFF, 0xFF, 0xFF, 0xFF] True 60 8"
    by code_simp
  have r1: "processIntegerSignal [0x12] 8 16 True True = Inr 0"
    using C8_out_of_range_returns_0 [of 8 16 "[0x12]" True True] h1 by blast
  have r2: "processIntegerSignal [0x12, 0x34] 0 16 False True = Inr 0"
    using C8_out_of_range_returns_0 [of 0 16 "[0x12, 0x34]" False True] h2 by blast
  have r3: "\<exists>v. processIntegerSignal [0x12, 0x34] 0 16 False True = Inr v"
    using C8_out_of_range_returns_0 [of 0 16 "[0x12, 0x34]" False True] h3 by blast
  obtain v where v: "processIntegerSignal [0xFF, 0xFF, 0xFF, 0xFF, 0xFF, 0xFF, 0xFF, 0xFF] 60 8 True False = Inr v"
    and bits: "\<And>n. bit v n = (\<exists>k<nat 8. n = result_bit True 8 k
                                \<and> bit_position True 60 k < 64
                                \<and> payload_bit [0xFF, 0xFF, 0xFF, 0xFF, 0xFF, 0xFF, 0xFF, 0xFF] (bit_position True 60 k))"
    using C8_out_of_range_returns_0 [of 60 8 "[0xFF, 0xFF, 0xFF, 0xFF, 0xFF, 0xFF, 0xFF, 0xFF]" True True] h4
    by blast
  have p63: "payload_bit [0xFF, 0xFF, 0xFF, 0xFF, 0xFF, 0xFF, 0xFF, 0xFF] 63"
    by code_simp
  have b3: "bit v 3"
    unfolding bits [of 3] using p63 by (simp add: result_bit_def bit_position_def)
  have b4: "\<not> bit v 4"
    unfolding bits [of 4] by (simp add: result_bit_def bit_position_def)
  show ?thesis
    using h1 h2 h4 r1 r2 r3 v b3 b4 by blast
qed

text \<open>
  The sign extension for 1 to 63 bits: with \<open>v\<close> the unsigned and \<open>s\<close> the signed decode
  of the same layout, \<open>s\<close> is \<open>v\<close> when bit \<open>sigSize - 1\<close> of \<open>v\<close> is clear, and
  \<open>v - 2 ^ sigSize\<close> when it is set.
\<close>

lemma sign_extension_below_64:
  assumes "layout_in_range startBit sigSize" and "sigSize \<le> 63"
  shows "\<exists>v s. processIntegerSignal data startBit sigSize littleEndian False = Inr v
           \<and> processIntegerSignal data startBit sigSize littleEndian True = Inr s
           \<and> (if bit v (nat (sigSize - 1)) then sint s = uint v - 2 ^ nat sigSize else s = v)"
proof -
  have s1: "1 \<le> sigSize"
    using assms(1) by (simp add: layout_in_range_def)
  note sum = layout_in_range_sum(1) [OF assms(1)]
  obtain x where x: "(if littleEndian then le_loop data sigSize 0 startBit 0
               else be_loop data sigSize 0 startBit 0) = Inr x"
    and c: "case x of Returned v \<Rightarrow> v = 0 | Finished r \<Rightarrow> le_inv sigSize r"
    using loop_result [OF assms(1)] by blast
  show ?thesis
  proof (cases "int (length data) < (startBit + sigSize) sdiv 8")
    case True
    then show ?thesis
      by (simp add: processIntegerSignal_def Let_def sum)
  next
    case False
    note nf = this
    show ?thesis
    proof (cases x)
      case (Returned v)
      then show ?thesis
        using x c nf by (auto simp: processIntegerSignal_def Let_def sum)
    next
      case (Finished r)
      then have inv: "\<And>i. bit r i \<Longrightarrow> i < nat sigSize"
        using c by (auto simp: le_inv_def)
      have n63: "nat sigSize \<le> 63" using assms(2) by simp
      have u: "processIntegerSignal data startBit sigSize littleEndian False = Inr r"
        using x Finished nf by (auto simp: processIntegerSignal_def Let_def sum)
      have sg: "processIntegerSignal data startBit sigSize littleEndian True =
                  Inr (if bit r (nat (sigSize - 1)) then NOT (mask (nat sigSize)) OR r else r)"
        using x Finished nf sign_extend_ok [OF s1 assms(2)]
        by (auto simp: processIntegerSignal_def Let_def sum)
      show ?thesis
        unfolding u sg using sint_sign_extended [OF n63 inv] by auto
    qed
  qed
qed


lemma sign_extension_4_bits: "processIntegerSignal [0x08] 0 4 True True = Inr (- 8)"
  by code_simp

text \<open>
  C9, at 64 bits: the signed decode of a 64-bit field whose top bit is set evaluates
  \<open>1ULL << sigSize\<close> with \<open>sigSize = 64\<close>, a shift by the full width of the operand,
  where the unsigned decode of the same bits is \<open>2 ^ 63\<close>.
\<close>

theorem C9_sign_extension_shift_at_64_bits:
  "processIntegerSignal [0, 0, 0, 0, 0, 0, 0, 0x80] 0 64 True False = Inr (2 ^ 63)
   \<and> processIntegerSignal [0, 0, 0, 0, 0, 0, 0, 0x80] 0 64 True True = Inl ShiftOutOfRange"
  by code_simp

section \<open>The filter table\<close>

lemma map_of_qmap_insert: "map_of (qmap_insert k v m) = (map_of m)(k \<mapsto> v)"
  by (induction m) (auto simp: fun_upd_twist)

lemma any_not_true_iff: "any_not_true vals = (False \<in> set vals)"
  by (induction vals) auto

lemma any_filters_are_configured_iff:
  "any_filters_are_configured s = (\<exists>k. (k, False) \<in> set (filters s))"
  by (force simp: any_filters_are_configured_def any_not_true_iff)

lemma qmap_subscript_fst: "fst (qmap_subscript m k) = enabled m k"
  by (auto simp: qmap_subscript_def enabled_def split: option.splits)

lemma qmap_subscript_enabled: "enabled (snd (qmap_subscript m k)) k' = enabled m k'"
  by (auto simp: qmap_subscript_def enabled_def map_of_qmap_insert split: option.splits)

lemma qmap_subscript_keeps:
  "map_of m k' = Some v \<Longrightarrow> map_of (snd (qmap_subscript m k)) k' = Some v"
  by (auto simp: qmap_subscript_def map_of_qmap_insert split: option.splits)

lemma addFrame_filters:
  "filters (addFrame frame autoRefresh s) =
     (if qmap_contains (filters s) (filter_key (frameId frame)) then filters s
      else qmap_insert (filter_key (frameId frame)) (\<not> any_filters_are_configured s) (filters s))"
  by (auto simp: addFrame_def Let_def qmap_contains_def qmap_subscript_def map_of_qmap_insert
      any_filters_are_configured_def split: option.splits prod.splits)

text \<open>
  C3: when \<open>addFrame\<close> ingests a frame whose key is not yet in the filter table, the key
  is inserted enabled if no key is configured and disabled if one is. "Configured" is
  the code's \<open>any_filters_are_configured\<close>, which holds exactly when some key of the
  table is disabled.
\<close>

theorem C3_new_key_default_policy:
  assumes "\<not> qmap_contains (filters s) (filter_key (frameId frame))"
  shows "map_of (filters (addFrame frame autoRefresh s)) (filter_key (frameId frame))
           = Some (\<not> any_filters_are_configured s)
         \<and> any_filters_are_configured s = (\<exists>k. (k, False) \<in> set (filters s))"
  using assms
  by (simp add: addFrame_filters map_of_qmap_insert any_filters_are_configured_iff)

theorem C3_new_key_default_policy_witness:
  "\<not> qmap_contains (filters CANFrameModel_ctor) (filter_key (frameId (data_frame 0x181 0 0 [] 1)))
   \<and> map_of (filters (addFrame (data_frame 0x181 0 0 [] 1) False CANFrameModel_ctor)) 1 = Some True
   \<and> \<not> qmap_contains (filters (CANFrameModel_ctor\<lparr>filters := [(2, False)]\<rparr>))
          (filter_key (frameId (data_frame 0x181 0 0 [] 1)))
   \<and> map_of (filters (addFrame (data_frame 0x181 0 0 [] 1) False
                (CANFrameModel_ctor\<lparr>filters := [(2, False)]\<rparr>))) 1 = Some False"
proof -
  have h1: "\<not> qmap_contains (filters CANFrameModel_ctor)
              (filter_key (frameId (data_frame 0x181 0 0 [] 1)))"
    by code_simp
  have h2: "\<not> qmap_contains (filters (CANFrameModel_ctor\<lparr>filters := [(2, False)]\<rparr>))
              (filter_key (frameId (data_frame 0x181 0 0 [] 1)))"
    by code_simp
  have k: "filter_key (frameId (data_frame 0x181 0 0 [] 1)) = 1"
    by code_simp
  have c1: "\<not> any_filters_are_configured CANFrameModel_ctor"
    by code_simp
  have c2: "any_filters_are_configured (CANFrameModel_ctor\<lparr>filters := [(2, False)]\<rparr>)"
    by code_simp
  have r1: "map_of (filters (addFrame (data_frame 0x181 0 0 [] 1) False CANFrameModel_ctor)) 1
              = Some True"
    using C3_new_key_default_policy [OF h1, of False] c1 unfolding k by simp
  have r2: "map_of (filters (addFrame (data_frame 0x181 0 0 [] 1) False
                      (CANFrameModel_ctor\<lparr>filters := [(2, False)]\<rparr>))) 1 = Some False"
    using C3_new_key_default_policy [OF h2, of False] c2 unfolding k by simp
  show ?thesis
    using h1 h2 r1 r2 by blast
qed

section \<open>Filter edits and the filtered view\<close>

lemma refresh_loop_snd:
  "snd (refresh_loop s fs flt acc) =
     acc @ filter (\<lambda>f. enabled flt (filter_key (frameId f))
                        \<and> filterFrameConsideringFunction s (frameId f)) fs"
proof (induction fs arbitrary: flt acc)
  case Nil
  then show ?case by simp
next
  case (Cons f fs)
  obtain v flt' where q: "qmap_subscript flt (filter_key (frameId f)) = (v, flt')"
    by (cases "qmap_subscript flt (filter_key (frameId f))")
  have v: "v = enabled flt (filter_key (frameId f))"
    using qmap_subscript_fst [of flt "filter_key (frameId f)"] q by simp
  have e: "\<And>k. enabled flt' k = enabled flt k"
    using qmap_subscript_enabled [of flt "filter_key (frameId f)"] q by simp
  show ?case
    by (simp add: q Cons.IH e v)
qed

lemma refresh_loop_keeps:
  "map_of flt k = Some v \<Longrightarrow> map_of (fst (refresh_loop s fs flt acc)) k = Some v"
proof (induction fs arbitrary: flt acc)
  case Nil
  then show ?case by simp
next
  case (Cons f fs)
  obtain w flt' where q: "qmap_subscript flt (filter_key (frameId f)) = (w, flt')"
    by (cases "qmap_subscript flt (filter_key (frameId f))")
  have "map_of flt' k = Some v"
    using qmap_subscript_keeps [OF Cons.prems, of "filter_key (frameId f)"] q by simp
  then show ?case
    by (simp add: q Cons.IH)
qed

lemma sendRefresh_filteredFrames:
  "filteredFrames (sendRefresh s) =
     filter (\<lambda>f. enabled (filters s) (filter_key (frameId f))
                  \<and> filterFrameConsideringFunction s (frameId f)) (frames s)"
  using refresh_loop_snd [of s "frames s" "filters s" "[]"]
  by (simp add: sendRefresh_def case_prod_beta)

lemma sendRefresh_frames: "frames (sendRefresh s) = frames s"
  by (simp add: sendRefresh_def case_prod_beta)

lemma sendRefresh_keeps:
  "map_of (filters s) k = Some v \<Longrightarrow> map_of (filters (sendRefresh s)) k = Some v"
  using refresh_loop_keeps [of "filters s" k v s "frames s" "[]"]
  by (simp add: sendRefresh_def case_prod_beta)

lemma filterFrameConsideringFunction_filters_update:
  "filterFrameConsideringFunction (s\<lparr>filters := m\<rparr>) = filterFrameConsideringFunction s"
  by (rule ext) (simp add: filterFrameConsideringFunction_def)

lemma enabled_map_all:
  "enabled (map (\<lambda>(k, v). (k, b)) m) k = (b \<and> map_of m k \<noteq> None)"
  by (induction m) (auto simp: enabled_def)

text \<open>
  C6, as stated: an edit of the filter table leaves the filtered view unchanged until a
  separate refresh. It does not: \<open>setFilterState\<close> (on a known key) and \<open>setAllFilters\<close>
  both end with \<open>sendRefresh()\<close>. After one frame with identifier \<open>0x181\<close> has been
  ingested, the view holds that frame; disabling its key 1, or all keys, empties the view
  in the same call.
\<close>

theorem C6_edit_changes_view_counterexample:
  "filteredFrames (setFilterState 1 False (addFrame (data_frame 0x181 0 0 [] 1) False CANFrameModel_ctor))
     \<noteq> filteredFrames (addFrame (data_frame 0x181 0 0 [] 1) False CANFrameModel_ctor)
   \<and> filteredFrames (setAllFilters False (addFrame (data_frame 0x181 0 0 [] 1) False CANFrameModel_ctor))
     \<noteq> filteredFrames (addFrame (data_frame 0x181 0 0 [] 1) False CANFrameModel_ctor)"
  by code_simp

text \<open>
  C6, amended: an edit of the filter table refreshes the filtered view itself. After
  \<open>setFilterState\<close> on a known key the view is the full store filtered by the edited
  table and the protocol-class filter, and after \<open>setAllFilters(state)\<close> it is the frames
  of the full store whose key is in the table and that pass the class filter when
  \<open>state\<close> is true, and empty when it is false.
\<close>

theorem C6_filter_edit_refreshes_view:
  "(qmap_contains (filters s) (filter_key ident) \<longrightarrow>
      filteredFrames (setFilterState ident state s) =
        filter (\<lambda>f. enabled (qmap_insert (sint ident) state (filters s)) (filter_key (frameId f))
                     \<and> filterFrameConsideringFunction s (frameId f)) (frames s))
   \<and> filteredFrames (setAllFilters state s) =
        filter (\<lambda>f. state \<and> qmap_contains (filters s) (filter_key (frameId f))
                     \<and> filterFrameConsideringFunction s (frameId f)) (frames s)"
  by (simp add: setFilterState_def setAllFilters_def sendRefresh_filteredFrames
        filterFrameConsideringFunction_filters_update enabled_map_all qmap_contains_def)

theorem C6_filter_edit_refreshes_view_witness:
  "qmap_contains (filters (addFrame (data_frame 0x181 0 0 [] 1) False CANFrameModel_ctor)) (filter_key 1)
   \<and> filteredFrames (setFilterState 1 False (addFrame (data_frame 0x181 0 0 [] 1) False CANFrameModel_ctor)) = []
   \<and> filteredFrames (setAllFilters True (addFrame (data_frame 0x181 0 0 [] 1) False CANFrameModel_ctor))
        = [data_frame 0x181 0 0 [] 1]"
proof -
  have h: "qmap_contains (filters (addFrame (data_frame 0x181 0 0 [] 1) False CANFrameModel_ctor))
             (filter_key 1)"
    by code_simp
  have fr: "frames (addFrame (data_frame 0x181 0 0 [] 1) False CANFrameModel_ctor)
              = [data_frame 0x181 0 0 [] 1]"
    by code_simp
  have fl: "filters (addFrame (data_frame 0x181 0 0 [] 1) False CANFrameModel_ctor) = [(1, True)]"
    by code_simp
  have e1: "\<not> enabled (qmap_insert (sint (1 :: 32 word)) False [(1, True)])
                (filter_key (frameId (data_frame 0x181 0 0 [] 1)))"
    by code_simp
  have e2: "qmap_contains [(1, True)] (filter_key (frameId (data_frame 0x181 0 0 [] 1)))
            \<and> filterFrameConsideringFunction
                 (addFrame (data_frame 0x181 0 0 [] 1) False CANFrameModel_ctor)
                 (frameId (data_frame 0x181 0 0 [] 1))"
    by code_simp
  have r1: "filteredFrames (setFilterState 1 False
                (addFrame (data_frame 0x181 0 0 [] 1) False CANFrameModel_ctor)) = []"
    using C6_filter_edit_refreshes_view
        [of "addFrame (data_frame 0x181 0 0 [] 1) False CANFrameModel_ctor" 1 False]
      h e1
    unfolding fr fl by simp
  have r2: "filteredFrames (setAllFilters True
                (addFrame (data_frame 0x181 0 0 [] 1) False CANFrameModel_ctor))
              = [data_frame 0x181 0 0 [] 1]"
    using C6_filter_edit_refreshes_view
        [of "addFrame (data_frame 0x181 0 0 [] 1) False CANFrameModel_ctor" 1 True]
      e2
    unfolding fr fl by simp
  show ?thesis
    using h r1 r2 by blast
qed

text \<open>
  C5, at an identifier above \<open>0x7F\<close>: after one frame with identifier \<open>0x181\<close> has been
  ingested the table holds its key 1, enabled. \<open>setFilterState(0x181, false)\<close> passes the
  test on \<open>0x181 & 0x7F\<close>, then assigns \<open>filters[0x181]\<close>: key 1 stays enabled, a new
  entry 385 appears, and the frame stays in the filtered view.
\<close>

theorem C5_setFilterState_assigns_unmasked_key:
  "filters (setFilterState 0x181 False (addFrame (data_frame 0x181 0 0 [] 1) False CANFrameModel_ctor))
     = [(1, True), (385, False)]
   \<and> filteredFrames
        (setFilterState 0x181 False (addFrame (data_frame 0x181 0 0 [] 1) False CANFrameModel_ctor))
     = [data_frame 0x181 0 0 [] 1]"
  by code_simp

text \<open>
  The parts of C5 that hold: an unknown key leaves the model as it is, and for an
  identifier that is its own key (below \<open>0x80\<close>) the entry of the key is set to the new
  state.
\<close>

lemma setFilterState_unknown_key:
  "\<not> qmap_contains (filters s) (filter_key ident) \<Longrightarrow> setFilterState ident state s = s"
  by (simp add: setFilterState_def)

lemma setFilterState_own_key:
  assumes "qmap_contains (filters s) (filter_key ident)" and "sint ident = filter_key ident"
  shows "map_of (filters (setFilterState ident state s)) (filter_key ident) = Some state"
  using assms
  by (simp add: setFilterState_def sendRefresh_keeps map_of_qmap_insert)

section \<open>Bulk ingestion\<close>

lemma insert_body_filters:
  "filters (insert_body f s) =
     (if qmap_contains (filters s) (filter_key (frameId f)) then filters s
      else qmap_insert (filter_key (frameId f)) True (filters s))"
  by (auto simp: insert_body_def Let_def qmap_contains_def qmap_subscript_def map_of_qmap_insert
        split: option.splits prod.splits)

lemma insert_loop_filters:
  "map_of (filters (insert_loop fs s)) k =
     (case map_of (filters s) k of
        Some v \<Rightarrow> Some v
      | None \<Rightarrow> if k \<in> (\<lambda>f. filter_key (frameId f)) ` set fs then Some True else None)"
proof (induction fs arbitrary: s)
  case Nil
  then show ?case by (simp split: option.splits)
next
  case (Cons f fs)
  show ?case
    by (auto simp: Cons.IH insert_body_filters qmap_contains_def map_of_qmap_insert
          split: option.splits)
qed

text \<open>
  C10: \<open>insertFrames\<close> registers every key of the batch that the table does not hold yet
  as enabled, whatever the table holds: there is no test of
  \<open>any_filters_are_configured\<close> on this path.
\<close>

theorem C10_insertFrames_registers_enabled:
  assumes "f \<in> set newFrames"
    and "\<not> qmap_contains (filters s) (filter_key (frameId f))"
  shows "map_of (filters (insertFrames newFrames s)) (filter_key (frameId f)) = Some True"
  using assms by (auto simp: insertFrames_def insert_loop_filters qmap_contains_def)

text \<open>
  The witness is a table that already has a disabled key: the bulk path enables the new
  key 1, where \<open>addFrame\<close> on the same state and frame disables it.
\<close>

theorem C10_insertFrames_registers_enabled_witness:
  "data_frame 0x181 0 0 [] 1 \<in> set [data_frame 0x181 0 0 [] 1]
   \<and> \<not> qmap_contains (filters (CANFrameModel_ctor\<lparr>filters := [(2, False)]\<rparr>))
          (filter_key (frameId (data_frame 0x181 0 0 [] 1)))
   \<and> map_of (filters (insertFrames [data_frame 0x181 0 0 [] 1]
                (CANFrameModel_ctor\<lparr>filters := [(2, False)]\<rparr>))) 1 = Some True
   \<and> map_of (filters (addFrame (data_frame 0x181 0 0 [] 1) False
                (CANFrameModel_ctor\<lparr>filters := [(2, False)]\<rparr>))) 1 = Some False"
proof -
  have h1: "data_frame 0x181 0 0 [] 1 \<in> set [data_frame 0x181 0 0 [] 1]"
    by simp
  have h2: "\<not> qmap_contains (filters (CANFrameModel_ctor\<lparr>filters := [(2, False)]\<rparr>))
              (filter_key (frameId (data_frame 0x181 0 0 [] 1)))"
    by code_simp
  have k: "filter_key (frameId (data_frame 0x181 0 0 [] 1)) = 1"
    by code_simp
  have r1: "map_of (filters (insertFrames [data_frame 0x181 0 0 [] 1]
                      (CANFrameModel_ctor\<lparr>filters := [(2, False)]\<rparr>))) 1 = Some True"
    using C10_insertFrames_registers_enabled [OF h1 h2] unfolding k .
  have r2: "map_of (filters (addFrame (data_frame 0x181 0 0 [] 1) False
                      (CANFrameModel_ctor\<lparr>filters := [(2, False)]\<rparr>))) 1 = Some False"
    by code_simp
  show ?thesis
    using h1 h2 r1 r2 by blast
qed

section \<open>Overwrite mode\<close>

text \<open>
  C2, at a frame whose count field is not 1: in overwrite mode, on the empty store,
  \<open>addFrame\<close> appends the frame to the full store as it came, and sets the count to 1 and
  the delta to 0 only afterwards, on the copy that goes to the filtered view. A single
  ingested frame that carries the count 7 leaves a full-store row with the count 7 (and
  8 after a second frame of the same identifier and bus), where the number of ingested
  frames is 1 (and 2).
\<close>

theorem C2_first_row_keeps_incoming_count:
  "map frameCount (frames (addFrames [data_frame 0x181 0 0 [] 7]
       (CANFrameModel_ctor\<lparr>overwriteDups := True\<rparr>))) = [7]
   \<and> map frameCount (filteredFrames (addFrames [data_frame 0x181 0 0 [] 7]
       (CANFrameModel_ctor\<lparr>overwriteDups := True\<rparr>))) = [1]
   \<and> map frameCount (frames (addFrames [data_frame 0x181 0 0 [] 7, data_frame 0x181 0 5 [] 7]
       (CANFrameModel_ctor\<lparr>overwriteDups := True\<rparr>))) = [8]"
  by code_simp

text \<open>
  What does hold in overwrite mode: when every ingested frame arrives with the count 1,
  the full store built by \<open>addFrame\<close> from an empty store has exactly one row for each
  pair of identifier and bus among the frames, and the count of the row is the number of
  ingested frames of the pair.
\<close>

lemma overwrite_scan_None:
  "(overwrite_scan t fr = None) = (frame_pair t \<notin> set (map frame_pair fr))"
  by (induction fr) (auto simp: frame_pair_def Let_def split: option.splits)

lemma overwrite_scan_Some:
  assumes "overwrite_scan t fr = Some (t', fr')" and "distinct (map frame_pair fr)"
  shows "map frame_pair fr' = map frame_pair fr
         \<and> frame_pair t' = frame_pair t
         \<and> t' \<in> set fr'
         \<and> (\<exists>r \<in> set fr. frame_pair r = frame_pair t \<and> frameCount t' = frameCount r + 1)
         \<and> (\<forall>row \<in> set fr'. row = t' \<or> (row \<in> set fr \<and> frame_pair row \<noteq> frame_pair t))"
  using assms
proof (induction fr arbitrary: fr')
  case Nil
  then show ?case by simp
next
  case (Cons f fr)
  show ?case
  proof (cases "frameId f = frameId t \<and> bus f = bus t")
    case True
    then have t': "t' = t\<lparr>frameCount := frameCount f + 1, timedelta := timeStamp t - timeStamp f\<rparr>"
      and fr': "fr' = t' # fr"
      using Cons.prems(1) by (auto simp: Let_def)
    have "frame_pair f \<notin> set (map frame_pair fr)"
      using Cons.prems(2) by simp
    moreover have ft: "frame_pair f = frame_pair t"
      using True by (simp add: frame_pair_def)
    ultimately have others: "\<forall>row \<in> set fr. frame_pair row \<noteq> frame_pair t"
      by (metis imageI list.set_map)
    have pt': "frame_pair t' = frame_pair t"
      by (simp add: t' frame_pair_def)
    have c: "frameCount t' = frameCount f + 1"
      by (simp add: t')
    show ?thesis
      unfolding fr' using others pt' c ft by auto
  next
    case False
    then obtain fr0 where s: "overwrite_scan t fr = Some (t', fr0)" and fr': "fr' = f # fr0"
      using Cons.prems(1) by (auto split: option.splits)
    have d: "distinct (map frame_pair fr)" using Cons.prems(2) by simp
    note IH = Cons.IH [OF s d]
    have fp: "frame_pair f \<noteq> frame_pair t"
      using False by (auto simp: frame_pair_def)
    show ?thesis
      using IH fr' fp by auto
  qed
qed

lemma occurrences_snoc:
  "occurrences p (fs @ [f]) = occurrences p fs + (if frame_pair f = p then 1 else 0)"
  by (simp add: occurrences_def)

lemma occurrences_0: "(occurrences p fs = 0) = (p \<notin> set (map frame_pair fs))"
  by (auto simp: occurrences_def filter_empty_conv)

lemma addFrame_overwrite_frames:
  assumes "overwriteDups s"
  shows "frames (addFrame frame autoRefresh s) =
     (case overwrite_scan (frame\<lparr>timeStamp := timeStamp frame - timeOffset s\<rparr>) (frames s) of
        None \<Rightarrow> frames s @ [frame\<lparr>timeStamp := timeStamp frame - timeOffset s\<rparr>]
      | Some (t, fs) \<Rightarrow> fs)"
    and "overwriteDups (addFrame frame autoRefresh s)"
  using assms
  by (auto simp: addFrame_def Let_def split: option.splits prod.splits)

lemma dedup_inv_addFrame:
  assumes "dedup_inv s ingested" and "frameCount frame = 1"
  shows "dedup_inv (addFrame frame autoRefresh s) (ingested @ [frame])"
proof -
  define t where "t = frame\<lparr>timeStamp := timeStamp frame - timeOffset s\<rparr>"
  have pt: "frame_pair t = frame_pair frame" and ct: "frameCount t = 1"
    using assms(2) by (simp_all add: t_def frame_pair_def)
  have ow: "overwriteDups s" and d: "distinct (map frame_pair (frames s))"
    and st: "set (map frame_pair (frames s)) = set (map frame_pair ingested)"
    and cn: "\<forall>row \<in> set (frames s). frameCount row = occurrences (frame_pair row) ingested"
    using assms(1) by (simp_all add: dedup_inv_def)
  note fr = addFrame_overwrite_frames [OF ow, of frame autoRefresh, folded t_def]
  show ?thesis
  proof (cases "overwrite_scan t (frames s)")
    case None
    then have new: "frame_pair frame \<notin> set (map frame_pair (frames s))"
      using overwrite_scan_None [of t "frames s"] pt by simp
    have f: "frames (addFrame frame autoRefresh s) = frames s @ [t]"
      using fr(1) None by simp
    have o: "occurrences (frame_pair frame) ingested = 0"
      using new st by (simp add: occurrences_0)
    show ?thesis
      unfolding dedup_inv_def f using fr(2) d st cn new pt ct o
      by (auto simp: occurrences_snoc)
  next
    case (Some a)
    then obtain t' fs where sc: "overwrite_scan t (frames s) = Some (t', fs)"
      by (cases a) auto
    have f: "frames (addFrame frame autoRefresh s) = fs"
      using fr(1) sc by simp
    note S = overwrite_scan_Some [OF sc d]
    have mp: "map frame_pair fs = map frame_pair (frames s)" using S by simp
    have pt': "frame_pair t' = frame_pair frame" using S pt by simp
    obtain r where r: "r \<in> set (frames s)" "frame_pair r = frame_pair frame"
      "frameCount t' = frameCount r + 1"
      using S pt by auto
    have old: "frame_pair frame \<in> set (map frame_pair ingested)"
      using r(1,2) st by (metis imageI list.set_map)
    have c: "\<forall>row \<in> set fs. frameCount row = occurrences (frame_pair row) (ingested @ [frame])"
    proof
      fix row assume "row \<in> set fs"
      then consider "row = t'" | "row \<in> set (frames s)" "frame_pair row \<noteq> frame_pair frame"
        using S pt by auto
      then show "frameCount row = occurrences (frame_pair row) (ingested @ [frame])"
      proof cases
        case 1
        then show ?thesis
          using r cn pt' by (simp add: occurrences_snoc)
      next
        case 2
        then show ?thesis
          using cn by (simp add: occurrences_snoc)
      qed
    qed
    show ?thesis
      unfolding dedup_inv_def f using fr(2) d st mp c old
      by auto
  qed
qed

lemma dedup_inv_addFrames:
  assumes "dedup_inv s ingested" and "list_all (\<lambda>f. frameCount f = 1) fs"
  shows "dedup_inv (addFrames fs s) (ingested @ fs)"
  using assms
proof (induction fs arbitrary: s ingested)
  case Nil
  then show ?case by simp
next
  case (Cons f fs)
  have "dedup_inv (addFrame f False s) (ingested @ [f])"
    using Cons.prems by (intro dedup_inv_addFrame) simp_all
  then have "dedup_inv (addFrames fs (addFrame f False s)) ((ingested @ [f]) @ fs)"
    using Cons.prems(2) by (intro Cons.IH) simp_all
  then show ?case by simp
qed

lemma dedup_invariant:
  assumes "overwriteDups s" and "frames s = []" and "list_all (\<lambda>f. frameCount f = 1) fs"
  shows "distinct (map frame_pair (frames (addFrames fs s)))
         \<and> set (map frame_pair (frames (addFrames fs s))) = set (map frame_pair fs)
         \<and> (\<forall>row \<in> set (frames (addFrames fs s)). frameCount row = occurrences (frame_pair row) fs)"
proof -
  have "dedup_inv s []"
    using assms(1,2) by (simp add: dedup_inv_def)
  then have "dedup_inv (addFrames fs s) ([] @ fs)"
    using assms(3) by (rule dedup_inv_addFrames)
  then show ?thesis
    by (simp add: dedup_inv_def)
qed

section \<open>Loading a filter file\<close>

text \<open>One line of the file, when it ends with a newline.\<close>

lemma loadFilter_loop_line:
  assumes "CHR 0x0A \<notin> set l"
  shows "loadFilter_loop (l @ CHR 0x0A # rest) flt =
     (let line = simplified (l @ [CHR 0x0A]) in
      if length line > 2 then
        (let tokens = split (CHR '','') line in
         if length tokens \<le> 1 then Inl IndexOutOfRange
         else loadFilter_loop rest
                (qmap_insert (toInt_16 (tokens ! 0) AND 0x7F) (toUpper (tokens ! 1) = ''T'') flt))
      else loadFilter_loop rest flt)"
proof -
  have rl: "readLine (l @ CHR 0x0A # rest) = (l @ [CHR 0x0A], rest)"
    using assms by (induction l) auto
  show ?thesis
    by (subst loadFilter_loop.simps) (simp add: rl Let_def)
qed

text \<open>
  C7, as stated: every malformed line is skipped and adds no entry. It is not: only the
  length of the line is tested. The line \<open>123,X\<close>, whose second field is neither \<open>T\<close> nor
  \<open>F\<close>, adds the key \<open>0x23\<close> as disabled, and the line \<open>zz,T\<close>, whose first field is not a
  hexadecimal number, adds the key 0 as enabled.
\<close>

theorem C7_malformed_line_adds_entry_counterexample:
  "loadFilterFile (Some ''123,X\<newline>'') CANFrameModel_ctor
     = Inr (CANFrameModel_ctor\<lparr>filters := [(0x23, False)]\<rparr>)
   \<and> loadFilterFile (Some ''zz,T\<newline>'') CANFrameModel_ctor
     = Inr (CANFrameModel_ctor\<lparr>filters := [(0, True)]\<rparr>)"
  by code_simp

text \<open>
  C7, amended: when the file cannot be opened the model is left as it was. A line is
  skipped (no entry) when its simplified text has at most 2 characters. A longer line
  that has a comma always writes an entry: the key is the hexadecimal value of the text
  before the first comma (0 when that is not a number), masked with \<open>0x7F\<close>, enabled
  when the second field is \<open>T\<close> or \<open>t\<close> and disabled otherwise. For the content
  \<open>123,T\<close> newline \<open>456,F\<close> newline the table has the key \<open>0x123 & 0x7F\<close> enabled and the
  key \<open>0x456 & 0x7F\<close> disabled, whatever the model held before.
\<close>

theorem C7_loadFilterFile:
  "loadFilterFile None s = Inr s
   \<and> (CHR 0x0A \<notin> set l \<and> length (simplified (l @ [CHR 0x0A])) \<le> 2 \<longrightarrow>
        loadFilter_loop (l @ CHR 0x0A # rest) flt = loadFilter_loop rest flt)
   \<and> (CHR 0x0A \<notin> set l \<and> length (simplified (l @ [CHR 0x0A])) > 2
        \<and> length (split (CHR '','') (simplified (l @ [CHR 0x0A]))) > 1 \<longrightarrow>
        loadFilter_loop (l @ CHR 0x0A # rest) flt =
          loadFilter_loop rest
            (qmap_insert
               (toInt_16 (split (CHR '','') (simplified (l @ [CHR 0x0A])) ! 0) AND 0x7F)
               (toUpper (split (CHR '','') (simplified (l @ [CHR 0x0A])) ! 1) = ''T'') flt))
   \<and> (\<exists>s'. loadFilterFile (Some ''123,T\<newline>456,F\<newline>'') s = Inr s'
          \<and> map_of (filters s') (0x123 AND 0x7F) = Some True
          \<and> map_of (filters s') (0x456 AND 0x7F) = Some False)"
proof (intro conjI impI)
  show "loadFilterFile None s = Inr s"
    by (simp add: loadFilterFile_def)
next
  assume "CHR 0x0A \<notin> set l \<and> length (simplified (l @ [CHR 0x0A])) \<le> 2"
  then show "loadFilter_loop (l @ CHR 0x0A # rest) flt = loadFilter_loop rest flt"
    by (simp add: loadFilter_loop_line Let_def)
next
  assume "CHR 0x0A \<notin> set l \<and> length (simplified (l @ [CHR 0x0A])) > 2
        \<and> length (split (CHR '','') (simplified (l @ [CHR 0x0A]))) > 1"
  then show "loadFilter_loop (l @ CHR 0x0A # rest) flt =
          loadFilter_loop rest
            (qmap_insert
               (toInt_16 (split (CHR '','') (simplified (l @ [CHR 0x0A])) ! 0) AND 0x7F)
               (toUpper (split (CHR '','') (simplified (l @ [CHR 0x0A])) ! 1) = ''T'') flt)"
    by (simp add: loadFilter_loop_line Let_def)
next
  have l: "loadFilter_loop ''123,T\<newline>456,F\<newline>'' [] = Inr [(0x23, True), (0x56, False)]"
    by code_simp
  have k: "(0x123 AND 0x7F :: int) = 0x23" "(0x456 AND 0x7F :: int) = 0x56"
    by simp_all
  have "map_of (filters (sendRefresh (s\<lparr>filters := [(0x23, True), (0x56, False)]\<rparr>))) 0x23 = Some True"
    by (rule sendRefresh_keeps) simp
  moreover
  have "map_of (filters (sendRefresh (s\<lparr>filters := [(0x23, True), (0x56, False)]\<rparr>))) 0x56 = Some False"
    by (rule sendRefresh_keeps) simp
  ultimately
  show "\<exists>s'. loadFilterFile (Some ''123,T\<newline>456,F\<newline>'') s = Inr s'
          \<and> map_of (filters s') (0x123 AND 0x7F) = Some True
          \<and> map_of (filters s') (0x456 AND 0x7F) = Some False"
    unfolding k by (simp add: loadFilterFile_def l)
qed

theorem C7_loadFilterFile_witness:
  "CHR 0x0A \<notin> set ''12'' \<and> length (simplified (''12'' @ [CHR 0x0A])) \<le> 2
   \<and> loadFilter_loop (''12'' @ CHR 0x0A # ''1,T'') [] = Inr [(1, True)]
   \<and> CHR 0x0A \<notin> set ''123,t'' \<and> length (simplified (''123,t'' @ [CHR 0x0A])) > 2
   \<and> length (split (CHR '','') (simplified (''123,t'' @ [CHR 0x0A]))) > 1
   \<and> loadFilter_loop (''123,t'' @ CHR 0x0A # []) [] = Inr [(0x23, True)]"
proof -
  have h1: "CHR 0x0A \<notin> set ''12'' \<and> length (simplified (''12'' @ [CHR 0x0A])) \<le> 2"
    by code_simp
  have h2: "CHR 0x0A \<notin> set ''123,t'' \<and> length (simplified (''123,t'' @ [CHR 0x0A])) > 2
            \<and> length (split (CHR '','') (simplified (''123,t'' @ [CHR 0x0A]))) > 1"
    by code_simp
  have e1: "loadFilter_loop ''1,T'' [] = Inr [(1, True)]"
    by code_simp
  have e2: "loadFilter_loop []
              (qmap_insert
                 (toInt_16 (split (CHR '','') (simplified (''123,t'' @ [CHR 0x0A])) ! 0) AND 0x7F)
                 (toUpper (split (CHR '','') (simplified (''123,t'' @ [CHR 0x0A])) ! 1) = ''T'') [])
            = Inr [(0x23, True)]"
    by code_simp
  have r1: "loadFilter_loop (''12'' @ CHR 0x0A # ''1,T'') [] = Inr [(1, True)]"
    using C7_loadFilterFile [of CANFrameModel_ctor "''12''" "''1,T''" "[]"] h1 e1 by presburger
  have r2: "loadFilter_loop (''123,t'' @ CHR 0x0A # []) [] = Inr [(0x23, True)]"
    using C7_loadFilterFile [of CANFrameModel_ctor "''123,t''" "[]" "[]"] h2 e2 by presburger
  show ?thesis
    using h1 h2 r1 r2 by blast
qed

section \<open>Sorting\<close>

lemma getCANFrameVal_row_key:
  assumes "keys_defined (overwriteDups s) col (frames s)" and "0 \<le> k" and "k < int (length (frames s))"
  shows "getCANFrameVal s k col = Inr (row_key s col k)"
  using assms by (simp add: getCANFrameVal_def row_key_def keys_defined_def)

lemma seg_rel_refl: "seg_rel lo hi fr fr"
  unfolding seg_rel_def by auto

lemma seg_rel_trans:
  assumes "seg_rel lo hi a b" and "seg_rel lo hi b c"
  shows "seg_rel lo hi a c"
proof -
  have len: "length b = length a" "length c = length b"
    using assms by (simp_all add: seg_rel_def)
  have out: "\<forall>k. 0 \<le> k \<and> k < int (length a) \<and> (k < lo \<or> hi < k) \<longrightarrow> c ! nat k = a ! nat k"
    using assms len unfolding seg_rel_def by auto
  have img: "\<forall>k. lo \<le> k \<and> k \<le> hi \<longrightarrow> (\<exists>k'. lo \<le> k' \<and> k' \<le> hi \<and> c ! nat k = a ! nat k')"
  proof (intro allI impI)
    fix k assume k: "lo \<le> k \<and> k \<le> hi"
    then obtain k1 where k1: "lo \<le> k1" "k1 \<le> hi" "c ! nat k = b ! nat k1"
      using assms(2) unfolding seg_rel_def by blast
    then obtain k2 where k2: "lo \<le> k2" "k2 \<le> hi" "b ! nat k1 = a ! nat k2"
      using assms(1) unfolding seg_rel_def by blast
    show "\<exists>k'. lo \<le> k' \<and> k' \<le> hi \<and> c ! nat k = a ! nat k'"
      using k1 k2 by auto
  qed
  show ?thesis
    unfolding seg_rel_def using assms len out img by (auto simp: seg_rel_def)
qed

lemma seg_rel_mono:
  assumes "seg_rel lo' hi' a b" and "lo \<le> lo'" and "hi' \<le> hi" and "0 \<le> lo" and "hi < int (length a)"
  shows "seg_rel lo hi a b"
proof -
  have img: "\<forall>k. lo \<le> k \<and> k \<le> hi \<longrightarrow> (\<exists>k'. lo \<le> k' \<and> k' \<le> hi \<and> b ! nat k = a ! nat k')"
  proof (intro allI impI)
    fix k assume k: "lo \<le> k \<and> k \<le> hi"
    show "\<exists>k'. lo \<le> k' \<and> k' \<le> hi \<and> b ! nat k = a ! nat k'"
    proof (cases "lo' \<le> k \<and> k \<le> hi'")
      case True
      then obtain k1 where "lo' \<le> k1" "k1 \<le> hi'" "b ! nat k = a ! nat k1"
        using assms(1) unfolding seg_rel_def by blast
      then show ?thesis using assms(2,3) by (intro exI [of _ k1]) simp
    next
      case False
      then have "b ! nat k = a ! nat k"
        using assms(1,4,5) k unfolding seg_rel_def by auto
      then show ?thesis using k by (intro exI [of _ k]) simp
    qed
  qed
  show ?thesis
    unfolding seg_rel_def using assms(1,2,3) img by (auto simp: seg_rel_def)
qed

lemma seg_rel_swap:
  assumes "lo \<le> i" and "i < j" and "j \<le> hi" and "0 \<le> lo" and "hi < int (length fr)"
  shows "seg_rel lo hi fr (fr[nat i := fr ! nat j, nat j := fr ! nat i])"
proof -
  have ij: "nat i < length fr" "nat j < length fr" "nat i \<noteq> nat j"
    using assms by auto
  have m: "mset (fr[nat i := fr ! nat j, nat j := fr ! nat i]) = mset fr"
    using ij by (simp add: mset_swap)
  have out: "\<forall>k. 0 \<le> k \<and> k < int (length fr) \<and> (k < lo \<or> hi < k) \<longrightarrow>
               fr[nat i := fr ! nat j, nat j := fr ! nat i] ! nat k = fr ! nat k"
    using assms by auto
  have img: "\<forall>k. lo \<le> k \<and> k \<le> hi \<longrightarrow>
      (\<exists>k'. lo \<le> k' \<and> k' \<le> hi \<and> fr[nat i := fr ! nat j, nat j := fr ! nat i] ! nat k = fr ! nat k')"
  proof (intro allI impI)
    fix k assume k: "lo \<le> k \<and> k \<le> hi"
    consider "k = i" | "k = j" | "k \<noteq> i" "k \<noteq> j" by blast
    then show "\<exists>k'. lo \<le> k' \<and> k' \<le> hi
                 \<and> fr[nat i := fr ! nat j, nat j := fr ! nat i] ! nat k = fr ! nat k'"
    proof cases
      case 1
      then show ?thesis using assms ij by (intro exI [of _ j]) simp
    next
      case 2
      then show ?thesis using assms ij by (intro exI [of _ i]) simp
    next
      case 3
      then have "nat k \<noteq> nat i" "nat k \<noteq> nat j" using assms k by auto
      then show ?thesis using k by (intro exI [of _ k]) simp
    qed
  qed
  show ?thesis
    unfolding seg_rel_def using m out img by simp
qed

lemma keys_defined_seg_rel:
  "seg_rel lo hi fr fr' \<Longrightarrow> keys_defined ow col fr \<Longrightarrow> keys_defined ow col fr'"
  unfolding seg_rel_def keys_defined_def by (metis set_mset_mset)

text \<open>The ascending sort.\<close>

lemma asc_up_spec:
  assumes "keys_defined (overwriteDups s) column (frames s)" and "- 1 \<le> i"
    and "upperBound < int (length (frames s))"
  shows "\<exists>i'. asc_up s column piv upperBound i = Inr i' \<and> i < i'
           \<and> (\<forall>k. i < k \<and> k < i' \<longrightarrow> row_key s column k < piv)
           \<and> (i' < upperBound \<longrightarrow> \<not> row_key s column i' < piv)"
  using assms
proof (induction s column piv upperBound i rule: asc_up.induct)
  case (1 s column piv upperBound i)
  note eq = asc_up.simps [of s column piv upperBound i]
  show ?case
  proof (cases "i + 1 < upperBound")
    case False
    then show ?thesis unfolding eq by (auto simp: Let_def)
  next
    case True
    have g: "getCANFrameVal s (i + 1) column = Inr (row_key s column (i + 1))"
      using "1.prems" True by (intro getCANFrameVal_row_key) simp_all
    show ?thesis
    proof (cases "row_key s column (i + 1) < piv")
      case False
      then show ?thesis unfolding eq using True g by (auto simp: Let_def)
    next
      case lt: True
      obtain i' where r: "asc_up s column piv upperBound (i + 1) = Inr i'" "i + 1 < i'"
        "\<forall>k. i + 1 < k \<and> k < i' \<longrightarrow> row_key s column k < piv"
        "i' < upperBound \<longrightarrow> \<not> row_key s column i' < piv"
        using "1.IH" [OF refl True g lt "1.prems"(1) _ "1.prems"(3)] "1.prems"(2) by auto
      have "\<forall>k. i < k \<and> k < i' \<longrightarrow> row_key s column k < piv"
      proof (intro allI impI)
        fix k assume "i < k \<and> k < i'"
        then show "row_key s column k < piv"
          using r(3) lt by (cases "k = i + 1") auto
      qed
      then show ?thesis
        unfolding eq using True g lt r by (simp add: Let_def)
    qed
  qed
qed

lemma asc_down_spec:
  assumes "keys_defined (overwriteDups s) column (frames s)" and "0 \<le> lowerBound"
    and "j \<le> int (length (frames s))"
  shows "\<exists>j'. asc_down s column piv lowerBound j = Inr j' \<and> j' < j
           \<and> (\<forall>k. j' < k \<and> k < j \<longrightarrow> piv < row_key s column k)
           \<and> (lowerBound < j' \<longrightarrow> \<not> piv < row_key s column j')"
  using assms
proof (induction s column piv lowerBound j rule: asc_down.induct)
  case (1 s column piv lowerBound j)
  note eq = asc_down.simps [of s column piv lowerBound j]
  show ?case
  proof (cases "lowerBound < j - 1")
    case False
    then show ?thesis unfolding eq by (auto simp: Let_def)
  next
    case True
    have g: "getCANFrameVal s (j - 1) column = Inr (row_key s column (j - 1))"
      using "1.prems" True by (intro getCANFrameVal_row_key) simp_all
    show ?thesis
    proof (cases "piv < row_key s column (j - 1)")
      case False
      then show ?thesis unfolding eq using True g by (auto simp: Let_def)
    next
      case lt: True
      obtain j' where r: "asc_down s column piv lowerBound (j - 1) = Inr j'" "j' < j - 1"
        "\<forall>k. j' < k \<and> k < j - 1 \<longrightarrow> piv < row_key s column k"
        "lowerBound < j' \<longrightarrow> \<not> piv < row_key s column j'"
        using "1.IH" [OF refl True g lt "1.prems"(1,2)] "1.prems"(3) by auto
      have "\<forall>k. j' < k \<and> k < j \<longrightarrow> piv < row_key s column k"
      proof (intro allI impI)
        fix k assume "j' < k \<and> k < j"
        then show "piv < row_key s column k"
          using r(3) lt by (cases "k = j - 1") auto
      qed
      then show ?thesis
        unfolding eq using True g lt r by (simp add: Let_def)
    qed
  qed
qed


lemma swap_frames_ok:
  assumes "0 \<le> i" and "i < j" and "j < int (length (frames s))"
  shows "swap_frames i j s = Inr (s\<lparr>frames := (frames s)[nat i := frames s ! nat j, nat j := frames s ! nat i]\<rparr>)"
  using assms by (simp add: swap_frames_def)

lemma row_key_swapped:
  assumes "0 \<le> i" and "i < j" and "j < int (length (frames s))" and "0 \<le> k"
  shows "row_key (s\<lparr>frames := (frames s)[nat i := frames s ! nat j, nat j := frames s ! nat i]\<rparr>) col k
           = (if k = i then row_key s col j else if k = j then row_key s col i else row_key s col k)"
proof -
  have "nat i < length (frames s)" "nat j < length (frames s)" "nat i \<noteq> nat j"
    using assms by auto
  moreover have "(nat k = nat i) = (k = i)" "(nat k = nat j) = (k = j)"
    using assms by auto
  ultimately show ?thesis
    by (auto simp: row_key_def nth_list_update)
qed

lemma asc_partition_spec:
  assumes "keys_defined (overwriteDups s) column (frames s)"
    and "0 \<le> lo" and "hi < int (length (frames s))" and "lo - 1 \<le> i" and "j \<le> hi + 1"
    and "\<forall>k. lo \<le> k \<and> k \<le> i \<longrightarrow> row_key s column k \<le> piv"
    and "\<forall>k. j \<le> k \<and> k \<le> hi \<longrightarrow> piv \<le> row_key s column k"
    and "\<exists>k. i < k \<and> k \<le> hi \<and> piv \<le> row_key s column k"
    and "\<exists>k. lo \<le> k \<and> k < j \<and> row_key s column k \<le> piv"
  shows "\<exists>s' p. asc_partition column piv lo hi i j s = Inr (s', p)
           \<and> s' = s\<lparr>frames := frames s'\<rparr>
           \<and> seg_rel lo hi (frames s) (frames s')
           \<and> lo \<le> p \<and> p \<le> hi
           \<and> (\<forall>k. lo \<le> k \<and> k \<le> p \<longrightarrow> row_key s' column k \<le> piv)
           \<and> (\<forall>k. p < k \<and> k \<le> hi \<longrightarrow> piv \<le> row_key s' column k)"
  using assms
proof (induction column piv lo hi i j s rule: asc_partition.induct)
  case (1 column piv lo hi i j s)
  note kd = "1.prems"(1) and lo0 = "1.prems"(2) and hil = "1.prems"(3)
    and ilo = "1.prems"(4) and jhi = "1.prems"(5)
    and low = "1.prems"(6) and high = "1.prems"(7)
  obtain ku where ku: "i < ku" "ku \<le> hi" "piv \<le> row_key s column ku"
    using "1.prems"(8) by blast
  obtain kl where kl: "lo \<le> kl" "kl < j" "row_key s column kl \<le> piv"
    using "1.prems"(9) by blast
  obtain i' where u: "asc_up s column piv hi i = Inr i'" and ii: "i < i'"
    and ubelow: "\<forall>k. i < k \<and> k < i' \<longrightarrow> row_key s column k < piv"
    and ustop: "i' < hi \<longrightarrow> \<not> row_key s column i' < piv"
    using asc_up_spec [OF kd _ hil, of i piv] ilo lo0 by auto
  obtain j' where d: "asc_down s column piv lo j = Inr j'" and jj: "j' < j"
    and dabove: "\<forall>k. j' < k \<and> k < j \<longrightarrow> piv < row_key s column k"
    and dstop: "lo < j' \<longrightarrow> \<not> piv < row_key s column j'"
    using asc_down_spec [OF kd lo0, of j piv] jhi hil by auto
  have i'ku: "i' \<le> ku"
  proof (rule ccontr)
    assume "\<not> i' \<le> ku"
    then have "row_key s column ku < piv" using ubelow ku(1) by simp
    then show False using ku(3) by simp
  qed
  have ki': "piv \<le> row_key s column i'"
  proof (cases "i' = ku")
    case True
    then show ?thesis using ku(3) by simp
  next
    case False
    then have "i' < hi" using i'ku ku(2) by simp
    then show ?thesis using ustop by simp
  qed
  have j'kl: "kl \<le> j'"
  proof (rule ccontr)
    assume "\<not> kl \<le> j'"
    then have "piv < row_key s column kl" using dabove kl(2) by simp
    then show False using kl(3) by simp
  qed
  have kj': "row_key s column j' \<le> piv"
  proof (cases "j' = kl")
    case True
    then show ?thesis using kl(3) by simp
  next
    case False
    then have "lo < j'" using j'kl kl(1) by simp
    then show ?thesis using dstop by simp
  qed
  have i'lo: "lo \<le> i'" using ii ilo by simp
  have i'hi: "i' \<le> hi" using i'ku ku(2) by simp
  have j'lo: "lo \<le> j'" using j'kl kl(1) by simp
  have j'hi: "j' \<le> hi" using jj jhi by simp
  note eq = asc_partition.simps [of column piv lo hi i j s]
  show ?case
  proof (cases "i' < j'")
    case False
    have r: "asc_partition column piv lo hi i j s = Inr (s, j')"
      unfolding eq using u d False by simp
    have A: "\<forall>k. lo \<le> k \<and> k \<le> j' \<longrightarrow> row_key s column k \<le> piv"
    proof (intro allI impI)
      fix k assume k: "lo \<le> k \<and> k \<le> j'"
      consider "k \<le> i" | "i < k" "k < i'" | "i' \<le> k" by linarith
      then show "row_key s column k \<le> piv"
      proof cases
        case 1 then show ?thesis using low k by simp
      next
        case 2 then show ?thesis using ubelow by (simp add: less_imp_le)
      next
        case 3
        then have "k = j'" using k False by simp
        then show ?thesis using kj' by simp
      qed
    qed
    have B: "\<forall>k. j' < k \<and> k \<le> hi \<longrightarrow> piv \<le> row_key s column k"
    proof (intro allI impI)
      fix k assume k: "j' < k \<and> k \<le> hi"
      show "piv \<le> row_key s column k"
      proof (cases "k < j")
        case True then show ?thesis using dabove k by (simp add: less_imp_le)
      next
        case False then show ?thesis using high k by simp
      qed
    qed
    show ?thesis
      using r A B j'lo j'hi by (simp add: seg_rel_refl)
  next
    case True
    define s1 where "s1 = s\<lparr>frames := (frames s)[nat i' := frames s ! nat j', nat j' := frames s ! nat i']\<rparr>"
    have i'0: "0 \<le> i'" using i'lo lo0 by simp
    have j'l: "j' < int (length (frames s))" using j'hi hil by simp
    have sw: "swap_frames i' j' s = Inr s1"
      unfolding s1_def using i'0 True j'l by (rule swap_frames_ok)
    have sr: "seg_rel lo hi (frames s) (frames s1)"
      unfolding s1_def using seg_rel_swap [OF i'lo True j'hi lo0 hil] by simp
    have ow1: "overwriteDups s1 = overwriteDups s" by (simp add: s1_def)
    have kd1: "keys_defined (overwriteDups s1) column (frames s1)"
      unfolding ow1 using sr kd by (rule keys_defined_seg_rel)
    have len1: "length (frames s1) = length (frames s)" by (simp add: s1_def)
    have rk: "\<And>k. 0 \<le> k \<Longrightarrow> row_key s1 column k
                = (if k = i' then row_key s column j' else if k = j' then row_key s column i'
                   else row_key s column k)"
      unfolding s1_def using i'0 True j'l by (rule row_key_swapped)
    have low1: "\<forall>k. lo \<le> k \<and> k \<le> i' \<longrightarrow> row_key s1 column k \<le> piv"
    proof (intro allI impI)
      fix k assume k: "lo \<le> k \<and> k \<le> i'"
      then have k0: "0 \<le> k" using lo0 by simp
      consider "k \<le> i" | "i < k" "k < i'" | "k = i'" using k by linarith
      then show "row_key s1 column k \<le> piv"
      proof cases
        case 1 then show ?thesis using low k rk [OF k0] ii True by simp
      next
        case 2 then show ?thesis using ubelow rk [OF k0] True by (simp add: less_imp_le)
      next
        case 3 then show ?thesis using rk [OF k0] kj' by simp
      qed
    qed
    have high1: "\<forall>k. j' \<le> k \<and> k \<le> hi \<longrightarrow> piv \<le> row_key s1 column k"
    proof (intro allI impI)
      fix k assume k: "j' \<le> k \<and> k \<le> hi"
      then have k0: "0 \<le> k" using j'lo lo0 by simp
      consider "j \<le> k" | "j' < k" "k < j" | "k = j'" using k by linarith
      then show "piv \<le> row_key s1 column k"
      proof cases
        case 1 then show ?thesis using high k rk [OF k0] jj True by simp
      next
        case 2 then show ?thesis using dabove rk [OF k0] True by (simp add: less_imp_le)
      next
        case 3 then show ?thesis using rk [OF k0] ki' True by simp
      qed
    qed
    have su1: "\<exists>k. i' < k \<and> k \<le> hi \<and> piv \<le> row_key s1 column k"
      using True j'hi rk [of j'] j'lo lo0 ki' by (intro exI [of _ j']) simp
    have sl1: "\<exists>k. lo \<le> k \<and> k < j' \<and> row_key s1 column k \<le> piv"
      using True i'lo rk [OF i'0] kj' by (intro exI [of _ i']) simp
    obtain s' p where r: "asc_partition column piv lo hi i' j' s1 = Inr (s', p)"
      and fr: "s' = s1\<lparr>frames := frames s'\<rparr>"
      and sr': "seg_rel lo hi (frames s1) (frames s')"
      and p: "lo \<le> p" "p \<le> hi"
      and A: "\<forall>k. lo \<le> k \<and> k \<le> p \<longrightarrow> row_key s' column k \<le> piv"
      and B: "\<forall>k. p < k \<and> k \<le> hi \<longrightarrow> piv \<le> row_key s' column k"
      using "1.IH" [OF u d True sw kd1 lo0 _ _ _ low1 high1 su1 sl1] len1 hil i'lo j'hi
      by auto
    have r0: "asc_partition column piv lo hi i j s = Inr (s', p)"
      unfolding eq using u d True sw r by simp
    have fr0: "s' = s\<lparr>frames := frames s'\<rparr>"
      using fr unfolding s1_def by (metis CANFrameModel.update_convs(1) CANFrameModel.surjective)
    show ?thesis
      using r0 fr0 seg_rel_trans [OF sr sr'] p A B by blast
  qed
qed


lemma qSortCANFrameAsc_spec:
  assumes "keys_defined (overwriteDups s) column (frames s)"
    and "0 \<le> lo" and "hi < int (length (frames s))"
  shows "\<exists>s'. qSortCANFrameAsc column lo hi s = Inr s'
           \<and> s' = s\<lparr>frames := frames s'\<rparr>
           \<and> seg_rel lo hi (frames s) (frames s')
           \<and> (\<forall>k l. lo \<le> k \<and> k \<le> l \<and> l \<le> hi \<longrightarrow> row_key s' column k \<le> row_key s' column l)"
  using assms
proof (induction column lo hi s rule: qSortCANFrameAsc.induct)
  case (1 column lo hi s)
  note kd = "1.prems"(1) and lo0 = "1.prems"(2) and hil = "1.prems"(3)
  note eq = qSortCANFrameAsc.simps [of column lo hi s]
  show ?case
  proof (cases "lo < hi")
    case False
    have "\<forall>k l. lo \<le> k \<and> k \<le> l \<and> l \<le> hi \<longrightarrow> row_key s column k \<le> row_key s column l"
    proof (intro allI impI)
      fix k l assume "lo \<le> k \<and> k \<le> l \<and> l \<le> hi"
      then have "k = l" using False by simp
      then show "row_key s column k \<le> row_key s column l" by simp
    qed
    then show ?thesis
      unfolding eq using False by (simp add: seg_rel_refl)
  next
    case True
    define mid where "mid = lo + (hi - lo) sdiv 2"
    have mid: "lo \<le> mid" "mid < hi"
      using True by (simp_all add: mid_def sdiv_2_nonneg)
    define piv where "piv = row_key s column mid"
    have g: "getCANFrameVal s (lo + (hi - lo) sdiv 2) column = Inr piv"
      unfolding piv_def mid_def [symmetric]
      using kd mid lo0 hil by (intro getCANFrameVal_row_key) simp_all
    have su: "\<exists>k. lo - 1 < k \<and> k \<le> hi \<and> piv \<le> row_key s column k"
      using mid by (intro exI [of _ mid]) (simp add: piv_def)
    have sl: "\<exists>k. lo \<le> k \<and> k < hi + 1 \<and> row_key s column k \<le> piv"
      using mid by (intro exI [of _ mid]) (simp add: piv_def)
    have v1: "\<forall>k. lo \<le> k \<and> k \<le> lo - 1 \<longrightarrow> row_key s column k \<le> piv"
      by auto
    have v2: "\<forall>k. hi + 1 \<le> k \<and> k \<le> hi \<longrightarrow> piv \<le> row_key s column k"
      by auto
    obtain s1 p where part: "asc_partition column piv lo hi (lo - 1) (hi + 1) s = Inr (s1, p)"
      and fr1: "s1 = s\<lparr>frames := frames s1\<rparr>"
      and sr1: "seg_rel lo hi (frames s) (frames s1)"
      and A: "\<forall>k. lo \<le> k \<and> k \<le> p \<longrightarrow> row_key s1 column k \<le> piv"
      and B: "\<forall>k. p < k \<and> k \<le> hi \<longrightarrow> piv \<le> row_key s1 column k"
      using asc_partition_spec [OF kd lo0 hil _ _ v1 v2 su sl] by auto
    have p: "lo \<le> p" "p < hi"
      using asc_partition_first [OF True g part] by simp_all
    have ow1: "overwriteDups s1 = overwriteDups s"
      using fr1 by (metis CANFrameModel.select_convs(4) CANFrameModel.surjective CANFrameModel.update_convs(1))
    have len1: "length (frames s1) = length (frames s)"
      using sr1 by (simp add: seg_rel_def)
    have kd1: "keys_defined (overwriteDups s1) column (frames s1)"
      unfolding ow1 using sr1 kd by (rule keys_defined_seg_rel)
    obtain s2 where q1: "qSortCANFrameAsc column lo p s1 = Inr s2"
      and fr2: "s2 = s1\<lparr>frames := frames s2\<rparr>"
      and sr2: "seg_rel lo p (frames s1) (frames s2)"
      and S1: "\<forall>k l. lo \<le> k \<and> k \<le> l \<and> l \<le> p \<longrightarrow> row_key s2 column k \<le> row_key s2 column l"
      using "1.IH"(1) [OF True g part refl kd1 lo0] p hil len1 by auto
    have ow2: "overwriteDups s2 = overwriteDups s"
      using fr2 ow1 by (metis CANFrameModel.select_convs(4) CANFrameModel.surjective CANFrameModel.update_convs(1))
    have len2: "length (frames s2) = length (frames s)"
      using sr2 len1 by (simp add: seg_rel_def)
    have kd2: "keys_defined (overwriteDups s2) column (frames s2)"
      unfolding ow2 using sr2 kd1 [unfolded ow1] by (rule keys_defined_seg_rel)
    obtain s3 where q2: "qSortCANFrameAsc column (p + 1) hi s2 = Inr s3"
      and fr3: "s3 = s2\<lparr>frames := frames s3\<rparr>"
      and sr3: "seg_rel (p + 1) hi (frames s2) (frames s3)"
      and S2: "\<forall>k l. p + 1 \<le> k \<and> k \<le> l \<and> l \<le> hi \<longrightarrow> row_key s3 column k \<le> row_key s3 column l"
      using "1.IH"(2) [OF True g part refl q1 kd2] p lo0 hil len2 by auto
    have ow3: "overwriteDups s3 = overwriteDups s"
      using fr3 ow2 by (metis CANFrameModel.select_convs(4) CANFrameModel.surjective CANFrameModel.update_convs(1))
    have r: "qSortCANFrameAsc column lo hi s = Inr s3"
      unfolding eq using True g part q1 q2 by simp
    have fr: "s3 = s\<lparr>frames := frames s3\<rparr>"
      using fr1 fr2 fr3
      by (metis CANFrameModel.surjective CANFrameModel.update_convs(1))
    have sr12: "seg_rel lo hi (frames s1) (frames s2)"
      using sr2 p hil lo0 len1 by (intro seg_rel_mono [OF sr2]) simp_all
    have sr23: "seg_rel lo hi (frames s2) (frames s3)"
      using sr3 p hil lo0 len2 by (intro seg_rel_mono [OF sr3]) simp_all
    have sr: "seg_rel lo hi (frames s) (frames s3)"
      using seg_rel_trans [OF sr1 seg_rel_trans [OF sr12 sr23]] .
    have low3: "row_key s3 column k \<le> piv" and same3: "row_key s3 column k = row_key s2 column k"
      if k: "lo \<le> k" "k \<le> p" for k
    proof -
      have e: "frames s3 ! nat k = frames s2 ! nat k"
        using sr3 k lo0 p hil len2 unfolding seg_rel_def by auto
      then show "row_key s3 column k = row_key s2 column k"
        by (simp add: row_key_def ow3 ow2)
      obtain k' where k': "lo \<le> k'" "k' \<le> p" "frames s2 ! nat k = frames s1 ! nat k'"
        using sr2 k unfolding seg_rel_def by blast
      have "row_key s3 column k = row_key s1 column k'"
        using e k'(3) by (simp add: row_key_def ow3 ow1)
      then show "row_key s3 column k \<le> piv"
        using A k'(1,2) by simp
    qed
    have high3: "piv \<le> row_key s3 column l" if l: "p < l" "l \<le> hi" for l
    proof -
      obtain l' where l': "p + 1 \<le> l'" "l' \<le> hi" "frames s3 ! nat l = frames s2 ! nat l'"
        using sr3 l unfolding seg_rel_def by (metis zless_imp_add1_zle)
      have "frames s2 ! nat l' = frames s1 ! nat l'"
        using sr2 l' p lo0 hil len1 unfolding seg_rel_def by auto
      then have "row_key s3 column l = row_key s1 column l'"
        using l'(3) by (simp add: row_key_def ow3 ow1)
      then show ?thesis
        using B l'(1,2) by simp
    qed
    have S: "\<forall>k l. lo \<le> k \<and> k \<le> l \<and> l \<le> hi \<longrightarrow> row_key s3 column k \<le> row_key s3 column l"
    proof (intro allI impI)
      fix k l assume kl: "lo \<le> k \<and> k \<le> l \<and> l \<le> hi"
      consider "l \<le> p" | "p < k" | "k \<le> p" "p < l" by linarith
      then show "row_key s3 column k \<le> row_key s3 column l"
      proof cases
        case 1
        then show ?thesis
          using S1 kl same3 [of k] same3 [of l] by simp
      next
        case 2
        then show ?thesis using S2 kl by simp
      next
        case 3
        then show ?thesis
          using low3 [of k] high3 [of l] kl by (meson order_trans)
      qed
    qed
    show ?thesis
      using r fr sr S by blast
  qed
qed


text \<open>The descending sort.\<close>

lemma desc_up_spec:
  assumes "keys_defined (overwriteDups s) column (frames s)" and "- 1 \<le> i"
    and "upperBound < int (length (frames s))"
  shows "\<exists>i'. desc_up s column piv upperBound i = Inr i' \<and> i < i'
           \<and> (\<forall>k. i < k \<and> k < i' \<longrightarrow> piv < row_key s column k)
           \<and> (i' < upperBound \<longrightarrow> \<not> piv < row_key s column i')"
  using assms
proof (induction s column piv upperBound i rule: desc_up.induct)
  case (1 s column piv upperBound i)
  note eq = desc_up.simps [of s column piv upperBound i]
  show ?case
  proof (cases "i + 1 < upperBound")
    case False
    then show ?thesis unfolding eq by (auto simp: Let_def)
  next
    case True
    have g: "getCANFrameVal s (i + 1) column = Inr (row_key s column (i + 1))"
      using "1.prems" True by (intro getCANFrameVal_row_key) simp_all
    show ?thesis
    proof (cases "piv < row_key s column (i + 1)")
      case False
      then show ?thesis unfolding eq using True g by (auto simp: Let_def)
    next
      case lt: True
      obtain i' where r: "desc_up s column piv upperBound (i + 1) = Inr i'" "i + 1 < i'"
        "\<forall>k. i + 1 < k \<and> k < i' \<longrightarrow> piv < row_key s column k"
        "i' < upperBound \<longrightarrow> \<not> piv < row_key s column i'"
        using "1.IH" [OF refl True g lt "1.prems"(1) _ "1.prems"(3)] "1.prems"(2) by auto
      have "\<forall>k. i < k \<and> k < i' \<longrightarrow> piv < row_key s column k"
      proof (intro allI impI)
        fix k assume "i < k \<and> k < i'"
        then show "piv < row_key s column k"
          using r(3) lt by (cases "k = i + 1") auto
      qed
      then show ?thesis
        unfolding eq using True g lt r by (simp add: Let_def)
    qed
  qed
qed

lemma desc_down_spec:
  assumes "keys_defined (overwriteDups s) column (frames s)" and "0 \<le> lowerBound"
    and "j \<le> int (length (frames s))"
  shows "\<exists>j'. desc_down s column piv lowerBound j = Inr j' \<and> j' < j
           \<and> (\<forall>k. j' < k \<and> k < j \<longrightarrow> row_key s column k < piv)
           \<and> (lowerBound < j' \<longrightarrow> \<not> row_key s column j' < piv)"
  using assms
proof (induction s column piv lowerBound j rule: desc_down.induct)
  case (1 s column piv lowerBound j)
  note eq = desc_down.simps [of s column piv lowerBound j]
  show ?case
  proof (cases "lowerBound < j - 1")
    case False
    then show ?thesis unfolding eq by (auto simp: Let_def)
  next
    case True
    have g: "getCANFrameVal s (j - 1) column = Inr (row_key s column (j - 1))"
      using "1.prems" True by (intro getCANFrameVal_row_key) simp_all
    show ?thesis
    proof (cases "row_key s column (j - 1) < piv")
      case False
      then show ?thesis unfolding eq using True g by (auto simp: Let_def)
    next
      case lt: True
      obtain j' where r: "desc_down s column piv lowerBound (j - 1) = Inr j'" "j' < j - 1"
        "\<forall>k. j' < k \<and> k < j - 1 \<longrightarrow> row_key s column k < piv"
        "lowerBound < j' \<longrightarrow> \<not> row_key s column j' < piv"
        using "1.IH" [OF refl True g lt "1.prems"(1,2)] "1.prems"(3) by auto
      have "\<forall>k. j' < k \<and> k < j \<longrightarrow> row_key s column k < piv"
      proof (intro allI impI)
        fix k assume "j' < k \<and> k < j"
        then show "row_key s column k < piv"
          using r(3) lt by (cases "k = j - 1") auto
      qed
      then show ?thesis
        unfolding eq using True g lt r by (simp add: Let_def)
    qed
  qed
qed


lemma desc_partition_spec:
  assumes "keys_defined (overwriteDups s) column (frames s)"
    and "0 \<le> lo" and "hi < int (length (frames s))" and "lo - 1 \<le> i" and "j \<le> hi + 1"
    and "\<forall>k. lo \<le> k \<and> k \<le> i \<longrightarrow> piv \<le> row_key s column k"
    and "\<forall>k. j \<le> k \<and> k \<le> hi \<longrightarrow> row_key s column k \<le> piv"
    and "\<exists>k. i < k \<and> k \<le> hi \<and> row_key s column k \<le> piv"
    and "\<exists>k. lo \<le> k \<and> k < j \<and> piv \<le> row_key s column k"
  shows "\<exists>s' p. desc_partition column piv lo hi i j s = Inr (s', p)
           \<and> s' = s\<lparr>frames := frames s'\<rparr>
           \<and> seg_rel lo hi (frames s) (frames s')
           \<and> lo \<le> p \<and> p \<le> hi
           \<and> (\<forall>k. lo \<le> k \<and> k \<le> p \<longrightarrow> piv \<le> row_key s' column k)
           \<and> (\<forall>k. p < k \<and> k \<le> hi \<longrightarrow> row_key s' column k \<le> piv)"
  using assms
proof (induction column piv lo hi i j s rule: desc_partition.induct)
  case (1 column piv lo hi i j s)
  note kd = "1.prems"(1) and lo0 = "1.prems"(2) and hil = "1.prems"(3)
    and ilo = "1.prems"(4) and jhi = "1.prems"(5)
    and low = "1.prems"(6) and high = "1.prems"(7)
  obtain ku where ku: "i < ku" "ku \<le> hi" "row_key s column ku \<le> piv"
    using "1.prems"(8) by blast
  obtain kl where kl: "lo \<le> kl" "kl < j" "piv \<le> row_key s column kl"
    using "1.prems"(9) by blast
  obtain i' where u: "desc_up s column piv hi i = Inr i'" and ii: "i < i'"
    and ubelow: "\<forall>k. i < k \<and> k < i' \<longrightarrow> piv < row_key s column k"
    and ustop: "i' < hi \<longrightarrow> \<not> piv < row_key s column i'"
    using desc_up_spec [OF kd _ hil, of i piv] ilo lo0 by auto
  obtain j' where d: "desc_down s column piv lo j = Inr j'" and jj: "j' < j"
    and dabove: "\<forall>k. j' < k \<and> k < j \<longrightarrow> row_key s column k < piv"
    and dstop: "lo < j' \<longrightarrow> \<not> row_key s column j' < piv"
    using desc_down_spec [OF kd lo0, of j piv] jhi hil by auto
  have i'ku: "i' \<le> ku"
  proof (rule ccontr)
    assume "\<not> i' \<le> ku"
    then have "piv < row_key s column ku" using ubelow ku(1) by simp
    then show False using ku(3) by simp
  qed
  have ki': "row_key s column i' \<le> piv"
  proof (cases "i' = ku")
    case True
    then show ?thesis using ku(3) by simp
  next
    case False
    then have "i' < hi" using i'ku ku(2) by simp
    then show ?thesis using ustop by simp
  qed
  have j'kl: "kl \<le> j'"
  proof (rule ccontr)
    assume "\<not> kl \<le> j'"
    then have "row_key s column kl < piv" using dabove kl(2) by simp
    then show False using kl(3) by simp
  qed
  have kj': "piv \<le> row_key s column j'"
  proof (cases "j' = kl")
    case True
    then show ?thesis using kl(3) by simp
  next
    case False
    then have "lo < j'" using j'kl kl(1) by simp
    then show ?thesis using dstop by simp
  qed
  have i'lo: "lo \<le> i'" using ii ilo by simp
  have i'hi: "i' \<le> hi" using i'ku ku(2) by simp
  have j'lo: "lo \<le> j'" using j'kl kl(1) by simp
  have j'hi: "j' \<le> hi" using jj jhi by simp
  note eq = desc_partition.simps [of column piv lo hi i j s]
  show ?case
  proof (cases "i' < j'")
    case False
    have r: "desc_partition column piv lo hi i j s = Inr (s, j')"
      unfolding eq using u d False by simp
    have A: "\<forall>k. lo \<le> k \<and> k \<le> j' \<longrightarrow> piv \<le> row_key s column k"
    proof (intro allI impI)
      fix k assume k: "lo \<le> k \<and> k \<le> j'"
      consider "k \<le> i" | "i < k" "k < i'" | "i' \<le> k" by linarith
      then show "piv \<le> row_key s column k"
      proof cases
        case 1 then show ?thesis using low k by simp
      next
        case 2 then show ?thesis using ubelow by (simp add: less_imp_le)
      next
        case 3
        then have "k = j'" using k False by simp
        then show ?thesis using kj' by simp
      qed
    qed
    have B: "\<forall>k. j' < k \<and> k \<le> hi \<longrightarrow> row_key s column k \<le> piv"
    proof (intro allI impI)
      fix k assume k: "j' < k \<and> k \<le> hi"
      show "row_key s column k \<le> piv"
      proof (cases "k < j")
        case True then show ?thesis using dabove k by (simp add: less_imp_le)
      next
        case False then show ?thesis using high k by simp
      qed
    qed
    show ?thesis
      using r A B j'lo j'hi by (simp add: seg_rel_refl)
  next
    case True
    define s1 where "s1 = s\<lparr>frames := (frames s)[nat i' := frames s ! nat j', nat j' := frames s ! nat i']\<rparr>"
    have i'0: "0 \<le> i'" using i'lo lo0 by simp
    have j'l: "j' < int (length (frames s))" using j'hi hil by simp
    have sw: "swap_frames i' j' s = Inr s1"
      unfolding s1_def using i'0 True j'l by (rule swap_frames_ok)
    have sr: "seg_rel lo hi (frames s) (frames s1)"
      unfolding s1_def using seg_rel_swap [OF i'lo True j'hi lo0 hil] by simp
    have ow1: "overwriteDups s1 = overwriteDups s" by (simp add: s1_def)
    have kd1: "keys_defined (overwriteDups s1) column (frames s1)"
      unfolding ow1 using sr kd by (rule keys_defined_seg_rel)
    have len1: "length (frames s1) = length (frames s)" by (simp add: s1_def)
    have rk: "\<And>k. 0 \<le> k \<Longrightarrow> row_key s1 column k
                = (if k = i' then row_key s column j' else if k = j' then row_key s column i'
                   else row_key s column k)"
      unfolding s1_def using i'0 True j'l by (rule row_key_swapped)
    have low1: "\<forall>k. lo \<le> k \<and> k \<le> i' \<longrightarrow> piv \<le> row_key s1 column k"
    proof (intro allI impI)
      fix k assume k: "lo \<le> k \<and> k \<le> i'"
      then have k0: "0 \<le> k" using lo0 by simp
      consider "k \<le> i" | "i < k" "k < i'" | "k = i'" using k by linarith
      then show "piv \<le> row_key s1 column k"
      proof cases
        case 1 then show ?thesis using low k rk [OF k0] ii True by simp
      next
        case 2 then show ?thesis using ubelow rk [OF k0] True by (simp add: less_imp_le)
      next
        case 3 then show ?thesis using rk [OF k0] kj' by simp
      qed
    qed
    have high1: "\<forall>k. j' \<le> k \<and> k \<le> hi \<longrightarrow> row_key s1 column k \<le> piv"
    proof (intro allI impI)
      fix k assume k: "j' \<le> k \<and> k \<le> hi"
      then have k0: "0 \<le> k" using j'lo lo0 by simp
      consider "j \<le> k" | "j' < k" "k < j" | "k = j'" using k by linarith
      then show "row_key s1 column k \<le> piv"
      proof cases
        case 1 then show ?thesis using high k rk [OF k0] jj True by simp
      next
        case 2 then show ?thesis using dabove rk [OF k0] True by (simp add: less_imp_le)
      next
        case 3 then show ?thesis using rk [OF k0] ki' True by simp
      qed
    qed
    have su1: "\<exists>k. i' < k \<and> k \<le> hi \<and> row_key s1 column k \<le> piv"
      using True j'hi rk [of j'] j'lo lo0 ki' by (intro exI [of _ j']) simp
    have sl1: "\<exists>k. lo \<le> k \<and> k < j' \<and> piv \<le> row_key s1 column k"
      using True i'lo rk [OF i'0] kj' by (intro exI [of _ i']) simp
    obtain s' p where r: "desc_partition column piv lo hi i' j' s1 = Inr (s', p)"
      and fr: "s' = s1\<lparr>frames := frames s'\<rparr>"
      and sr': "seg_rel lo hi (frames s1) (frames s')"
      and p: "lo \<le> p" "p \<le> hi"
      and A: "\<forall>k. lo \<le> k \<and> k \<le> p \<longrightarrow> piv \<le> row_key s' column k"
      and B: "\<forall>k. p < k \<and> k \<le> hi \<longrightarrow> row_key s' column k \<le> piv"
      using "1.IH" [OF u d True sw kd1 lo0 _ _ _ low1 high1 su1 sl1] len1 hil i'lo j'hi
      by auto
    have r0: "desc_partition column piv lo hi i j s = Inr (s', p)"
      unfolding eq using u d True sw r by simp
    have fr0: "s' = s\<lparr>frames := frames s'\<rparr>"
      using fr unfolding s1_def by (metis CANFrameModel.update_convs(1) CANFrameModel.surjective)
    show ?thesis
      using r0 fr0 seg_rel_trans [OF sr sr'] p A B by blast
  qed
qed


lemma qSortCANFrameDesc_spec:
  assumes "keys_defined (overwriteDups s) column (frames s)"
    and "0 \<le> lo" and "hi < int (length (frames s))"
  shows "\<exists>s'. qSortCANFrameDesc column lo hi s = Inr s'
           \<and> s' = s\<lparr>frames := frames s'\<rparr>
           \<and> seg_rel lo hi (frames s) (frames s')
           \<and> (\<forall>k l. lo \<le> k \<and> k \<le> l \<and> l \<le> hi \<longrightarrow> row_key s' column l \<le> row_key s' column k)"
  using assms
proof (induction column lo hi s rule: qSortCANFrameDesc.induct)
  case (1 column lo hi s)
  note kd = "1.prems"(1) and lo0 = "1.prems"(2) and hil = "1.prems"(3)
  note eq = qSortCANFrameDesc.simps [of column lo hi s]
  show ?case
  proof (cases "lo < hi")
    case False
    have "\<forall>k l. lo \<le> k \<and> k \<le> l \<and> l \<le> hi \<longrightarrow> row_key s column l \<le> row_key s column k"
    proof (intro allI impI)
      fix k l assume "lo \<le> k \<and> k \<le> l \<and> l \<le> hi"
      then have "k = l" using False by simp
      then show "row_key s column l \<le> row_key s column k" by simp
    qed
    then show ?thesis
      unfolding eq using False by (simp add: seg_rel_refl)
  next
    case True
    define mid where "mid = lo + (hi - lo) sdiv 2"
    have mid: "lo \<le> mid" "mid < hi"
      using True by (simp_all add: mid_def sdiv_2_nonneg)
    define piv where "piv = row_key s column mid"
    have g: "getCANFrameVal s (lo + (hi - lo) sdiv 2) column = Inr piv"
      unfolding piv_def mid_def [symmetric]
      using kd mid lo0 hil by (intro getCANFrameVal_row_key) simp_all
    have su: "\<exists>k. lo - 1 < k \<and> k \<le> hi \<and> row_key s column k \<le> piv"
      using mid by (intro exI [of _ mid]) (simp add: piv_def)
    have sl: "\<exists>k. lo \<le> k \<and> k < hi + 1 \<and> piv \<le> row_key s column k"
      using mid by (intro exI [of _ mid]) (simp add: piv_def)
    have v1: "\<forall>k. lo \<le> k \<and> k \<le> lo - 1 \<longrightarrow> piv \<le> row_key s column k"
      by auto
    have v2: "\<forall>k. hi + 1 \<le> k \<and> k \<le> hi \<longrightarrow> row_key s column k \<le> piv"
      by auto
    obtain s1 p where part: "desc_partition column piv lo hi (lo - 1) (hi + 1) s = Inr (s1, p)"
      and fr1: "s1 = s\<lparr>frames := frames s1\<rparr>"
      and sr1: "seg_rel lo hi (frames s) (frames s1)"
      and A: "\<forall>k. lo \<le> k \<and> k \<le> p \<longrightarrow> piv \<le> row_key s1 column k"
      and B: "\<forall>k. p < k \<and> k \<le> hi \<longrightarrow> row_key s1 column k \<le> piv"
      using desc_partition_spec [OF kd lo0 hil _ _ v1 v2 su sl] by auto
    have p: "lo \<le> p" "p < hi"
      using desc_partition_first [OF True g part] by simp_all
    have ow1: "overwriteDups s1 = overwriteDups s"
      using fr1 by (metis CANFrameModel.select_convs(4) CANFrameModel.surjective CANFrameModel.update_convs(1))
    have len1: "length (frames s1) = length (frames s)"
      using sr1 by (simp add: seg_rel_def)
    have kd1: "keys_defined (overwriteDups s1) column (frames s1)"
      unfolding ow1 using sr1 kd by (rule keys_defined_seg_rel)
    obtain s2 where q1: "qSortCANFrameDesc column lo p s1 = Inr s2"
      and fr2: "s2 = s1\<lparr>frames := frames s2\<rparr>"
      and sr2: "seg_rel lo p (frames s1) (frames s2)"
      and S1: "\<forall>k l. lo \<le> k \<and> k \<le> l \<and> l \<le> p \<longrightarrow> row_key s2 column l \<le> row_key s2 column k"
      using "1.IH"(1) [OF True g part refl kd1 lo0] p hil len1 by auto
    have ow2: "overwriteDups s2 = overwriteDups s"
      using fr2 ow1 by (metis CANFrameModel.select_convs(4) CANFrameModel.surjective CANFrameModel.update_convs(1))
    have len2: "length (frames s2) = length (frames s)"
      using sr2 len1 by (simp add: seg_rel_def)
    have kd2: "keys_defined (overwriteDups s2) column (frames s2)"
      unfolding ow2 using sr2 kd1 [unfolded ow1] by (rule keys_defined_seg_rel)
    obtain s3 where q2: "qSortCANFrameDesc column (p + 1) hi s2 = Inr s3"
      and fr3: "s3 = s2\<lparr>frames := frames s3\<rparr>"
      and sr3: "seg_rel (p + 1) hi (frames s2) (frames s3)"
      and S2: "\<forall>k l. p + 1 \<le> k \<and> k \<le> l \<and> l \<le> hi \<longrightarrow> row_key s3 column l \<le> row_key s3 column k"
      using "1.IH"(2) [OF True g part refl q1 kd2] p lo0 hil len2 by auto
    have ow3: "overwriteDups s3 = overwriteDups s"
      using fr3 ow2 by (metis CANFrameModel.select_convs(4) CANFrameModel.surjective CANFrameModel.update_convs(1))
    have r: "qSortCANFrameDesc column lo hi s = Inr s3"
      unfolding eq using True g part q1 q2 by simp
    have fr: "s3 = s\<lparr>frames := frames s3\<rparr>"
      using fr1 fr2 fr3
      by (metis CANFrameModel.surjective CANFrameModel.update_convs(1))
    have sr12: "seg_rel lo hi (frames s1) (frames s2)"
      using sr2 p hil lo0 len1 by (intro seg_rel_mono [OF sr2]) simp_all
    have sr23: "seg_rel lo hi (frames s2) (frames s3)"
      using sr3 p hil lo0 len2 by (intro seg_rel_mono [OF sr3]) simp_all
    have sr: "seg_rel lo hi (frames s) (frames s3)"
      using seg_rel_trans [OF sr1 seg_rel_trans [OF sr12 sr23]] .
    have low3: "piv \<le> row_key s3 column k" and same3: "row_key s3 column k = row_key s2 column k"
      if k: "lo \<le> k" "k \<le> p" for k
    proof -
      have e: "frames s3 ! nat k = frames s2 ! nat k"
        using sr3 k lo0 p hil len2 unfolding seg_rel_def by auto
      then show "row_key s3 column k = row_key s2 column k"
        by (simp add: row_key_def ow3 ow2)
      obtain k' where k': "lo \<le> k'" "k' \<le> p" "frames s2 ! nat k = frames s1 ! nat k'"
        using sr2 k unfolding seg_rel_def by blast
      have "row_key s3 column k = row_key s1 column k'"
        using e k'(3) by (simp add: row_key_def ow3 ow1)
      then show "piv \<le> row_key s3 column k"
        using A k'(1,2) by simp
    qed
    have high3: "row_key s3 column l \<le> piv" if l: "p < l" "l \<le> hi" for l
    proof -
      obtain l' where l': "p + 1 \<le> l'" "l' \<le> hi" "frames s3 ! nat l = frames s2 ! nat l'"
        using sr3 l unfolding seg_rel_def by (metis zless_imp_add1_zle)
      have "frames s2 ! nat l' = frames s1 ! nat l'"
        using sr2 l' p lo0 hil len1 unfolding seg_rel_def by auto
      then have "row_key s3 column l = row_key s1 column l'"
        using l'(3) by (simp add: row_key_def ow3 ow1)
      then show ?thesis
        using B l'(1,2) by simp
    qed
    have S: "\<forall>k l. lo \<le> k \<and> k \<le> l \<and> l \<le> hi \<longrightarrow> row_key s3 column l \<le> row_key s3 column k"
    proof (intro allI impI)
      fix k l assume kl: "lo \<le> k \<and> k \<le> l \<and> l \<le> hi"
      consider "l \<le> p" | "p < k" | "k \<le> p" "p < l" by linarith
      then show "row_key s3 column l \<le> row_key s3 column k"
      proof cases
        case 1
        then show ?thesis
          using S1 kl same3 [of k] same3 [of l] by simp
      next
        case 2
        then show ?thesis using S2 kl by simp
      next
        case 3
        then show ?thesis
          using low3 [of k] high3 [of l] kl by (meson order_trans)
      qed
    qed
    show ?thesis
      using r fr sr S by blast
  qed
qed


text \<open>\<open>sortByColumn\<close>.\<close>

lemma payload_sum_defined:
  "0 \<le> i \<Longrightarrow> i + int (length cs) \<le> 8 \<Longrightarrow> \<exists>v. payload_sum cs i temp = Inr v"
  by (induction cs arbitrary: i temp) auto

lemma frame_val_defined:
  assumes "col = ASCII \<or> col = Data \<longrightarrow> length (payload f) \<le> 8"
  shows "frame_val ow f col = Inr (frame_key ow col f)"
proof -
  have "\<exists>v. frame_val ow f col = Inr v"
    using assms payload_sum_defined [of 0 "payload f" 0]
    by (cases col) (auto simp: frame_val_def)
  then show ?thesis
    by (auto simp: frame_key_def)
qed

lemma keys_defined_if_payloads_fit:
  assumes "col = ASCII \<or> col = Data \<longrightarrow> payloads_fit fr"
  shows "keys_defined ow col fr"
  unfolding keys_defined_def
proof
  fix f assume "f \<in> set fr"
  then have "col = ASCII \<or> col = Data \<longrightarrow> length (payload f) \<le> 8"
    using assms by (auto simp: payloads_fit_def list_all_iff)
  then show "frame_val ow f col = Inr (frame_key ow col f)"
    by (rule frame_val_defined)
qed

lemma sendRefresh_overwriteDups: "overwriteDups (sendRefresh s) = overwriteDups s"
  by (simp add: sendRefresh_def case_prod_beta)

lemma sendRefresh_sortDirAsc: "sortDirAsc (sendRefresh s) = sortDirAsc s"
  by (simp add: sendRefresh_def case_prod_beta)

lemma sortByColumn_spec:
  assumes "column = ASCII \<or> column = Data \<longrightarrow> payloads_fit (frames s)"
  shows "\<exists>s'. sortByColumn column s = Inr s'
           \<and> sortDirAsc s' = (\<not> sortDirAsc s)
           \<and> overwriteDups s' = overwriteDups s
           \<and> mset (frames s') = mset (frames s)
           \<and> (\<forall>i. 0 \<le> i \<and> i + 1 < int (length (frames s')) \<longrightarrow>
                 (if sortDirAsc s' then row_key s' column i \<le> row_key s' column (i + 1)
                  else row_key s' column (i + 1) \<le> row_key s' column i))"
proof -
  define s1 where "s1 = s\<lparr>sortDirAsc := \<not> sortDirAsc s\<rparr>"
  have kd: "keys_defined (overwriteDups s1) column (frames s1)"
    using assms by (intro keys_defined_if_payloads_fit) (simp add: s1_def)
  have hi: "int (length (frames s1)) - 1 < int (length (frames s1))" by simp
  have z: "(0::int) \<le> 0" by simp
  show ?thesis
  proof (cases "sortDirAsc s1")
    case True
    obtain s2 where q: "qSortCANFrameAsc column 0 (int (length (frames s1)) - 1) s1 = Inr s2"
      and fr: "s2 = s1\<lparr>frames := frames s2\<rparr>"
      and sr: "seg_rel 0 (int (length (frames s1)) - 1) (frames s1) (frames s2)"
      and S: "\<forall>k l. 0 \<le> k \<and> k \<le> l \<and> l \<le> int (length (frames s1)) - 1 \<longrightarrow>
                row_key s2 column k \<le> row_key s2 column l"
      using qSortCANFrameAsc_spec [OF kd z hi] by blast
    have dir: "sortDirAsc s2 = sortDirAsc s1" and ow: "overwriteDups s2 = overwriteDups s1"
      using fr by (metis CANFrameModel.select_convs CANFrameModel.surjective CANFrameModel.update_convs(1))+
    have len: "length (frames s2) = length (frames s1)" and ms: "mset (frames s2) = mset (frames s1)"
      using sr by (simp_all add: seg_rel_def)
    have r: "sortByColumn column s = Inr (sendRefresh s2)"
      using True q by (simp add: sortByColumn_def s1_def [symmetric] Let_def)
    have rk: "row_key (sendRefresh s2) column = row_key s2 column"
      by (rule ext) (simp add: row_key_def sendRefresh_overwriteDups sendRefresh_frames)
    show ?thesis
      using r True dir ow ms S len
      by (simp add: sendRefresh_sortDirAsc sendRefresh_overwriteDups sendRefresh_frames rk s1_def)
  next
    case False
    obtain s2 where q: "qSortCANFrameDesc column 0 (int (length (frames s1)) - 1) s1 = Inr s2"
      and fr: "s2 = s1\<lparr>frames := frames s2\<rparr>"
      and sr: "seg_rel 0 (int (length (frames s1)) - 1) (frames s1) (frames s2)"
      and S: "\<forall>k l. 0 \<le> k \<and> k \<le> l \<and> l \<le> int (length (frames s1)) - 1 \<longrightarrow>
                row_key s2 column l \<le> row_key s2 column k"
      using qSortCANFrameDesc_spec [OF kd z hi] by blast
    have dir: "sortDirAsc s2 = sortDirAsc s1" and ow: "overwriteDups s2 = overwriteDups s1"
      using fr by (metis CANFrameModel.select_convs CANFrameModel.surjective CANFrameModel.update_convs(1))+
    have len: "length (frames s2) = length (frames s1)" and ms: "mset (frames s2) = mset (frames s1)"
      using sr by (simp_all add: seg_rel_def)
    have r: "sortByColumn column s = Inr (sendRefresh s2)"
      using False q by (simp add: sortByColumn_def s1_def [symmetric] Let_def)
    have rk: "row_key (sendRefresh s2) column = row_key s2 column"
      by (rule ext) (simp add: row_key_def sendRefresh_overwriteDups sendRefresh_frames)
    show ?thesis
      using r False dir ow ms S len
      by (simp add: sendRefresh_sortDirAsc sendRefresh_overwriteDups sendRefresh_frames rk s1_def)
  qed
qed


lemma payloads_fit_mset:
  "mset fr' = mset fr \<Longrightarrow> payloads_fit fr \<Longrightarrow> payloads_fit fr'"
  unfolding payloads_fit_def list_all_iff by (metis set_mset_mset)

text \<open>
  \<open>sortByColumn\<close> flips the direction flag; afterwards every adjacent pair of rows of
  the full store is in order for the value \<open>getCANFrameVal\<close> gives the column, ascending
  when the flag ends true and descending when it ends false; the store is a permutation
  of what it was; and a second call on the same column flips the flag back, so it sorts
  in the other direction. The payloads are those of the data model, at most 8 bytes,
  which is what the \<open>Data\<close> and \<open>ASCII\<close> values need to be defined.
\<close>

lemma sortByColumn_sorted:
  assumes "column = ASCII \<or> column = Data \<longrightarrow> payloads_fit (frames s)"
  shows "\<exists>s'. sortByColumn column s = Inr s'
           \<and> sortDirAsc s' = (\<not> sortDirAsc s)
           \<and> mset (frames s') = mset (frames s)
           \<and> (\<forall>i. 0 \<le> i \<and> i + 1 < int (length (frames s')) \<longrightarrow>
                 (\<exists>a b. getCANFrameVal s' i column = Inr a
                        \<and> getCANFrameVal s' (i + 1) column = Inr b
                        \<and> (if sortDirAsc s' then a \<le> b else b \<le> a)))
           \<and> (\<exists>s''. sortByColumn column s' = Inr s'' \<and> sortDirAsc s'' = sortDirAsc s)"
proof -
  obtain s' where r: "sortByColumn column s = Inr s'"
    and dir: "sortDirAsc s' = (\<not> sortDirAsc s)"
    and ms: "mset (frames s') = mset (frames s)"
    and S: "\<forall>i. 0 \<le> i \<and> i + 1 < int (length (frames s')) \<longrightarrow>
                 (if sortDirAsc s' then row_key s' column i \<le> row_key s' column (i + 1)
                  else row_key s' column (i + 1) \<le> row_key s' column i)"
    using sortByColumn_spec [OF assms] by blast
  have fit': "column = ASCII \<or> column = Data \<longrightarrow> payloads_fit (frames s')"
    using assms ms by (auto intro: payloads_fit_mset)
  have kd': "keys_defined (overwriteDups s') column (frames s')"
    using fit' by (rule keys_defined_if_payloads_fit)
  have G: "\<forall>i. 0 \<le> i \<and> i + 1 < int (length (frames s')) \<longrightarrow>
                 (\<exists>a b. getCANFrameVal s' i column = Inr a
                        \<and> getCANFrameVal s' (i + 1) column = Inr b
                        \<and> (if sortDirAsc s' then a \<le> b else b \<le> a))"
  proof (intro allI impI)
    fix i assume i: "0 \<le> i \<and> i + 1 < int (length (frames s'))"
    have a: "getCANFrameVal s' i column = Inr (row_key s' column i)"
      using kd' i by (intro getCANFrameVal_row_key) simp_all
    have b: "getCANFrameVal s' (i + 1) column = Inr (row_key s' column (i + 1))"
      using kd' i by (intro getCANFrameVal_row_key) simp_all
    show "\<exists>a b. getCANFrameVal s' i column = Inr a
                        \<and> getCANFrameVal s' (i + 1) column = Inr b
                        \<and> (if sortDirAsc s' then a \<le> b else b \<le> a)"
      using a b S i by simp
  qed
  obtain s'' where r2: "sortByColumn column s' = Inr s''" and dir2: "sortDirAsc s'' = (\<not> sortDirAsc s')"
    using sortByColumn_spec [OF fit'] by blast
  show ?thesis
    using r dir ms G r2 dir2 by auto
qed

lemma three_frames_sorted: "(case sortByColumn Data three_frames of
              Inl e \<Rightarrow> False
            | Inr s' \<Rightarrow> sortDirAsc s' \<and> map payload (frames s') = [[1], [2], [3]]
                \<and> (case sortByColumn Data s' of
                      Inl e \<Rightarrow> False
                    | Inr s'' \<Rightarrow> \<not> sortDirAsc s'' \<and> map payload (frames s'') = [[3], [2], [1]]))"
  by code_simp

subsection \<open>The keys of the specification\<close>

text \<open>
  The conversion \<open>static_cast<uint64_t>\<close> of a payload byte is the byte itself when the
  byte is below \<open>0x80\<close>, and then the sum of \<open>getCANFrameVal\<close> is the packed word.
\<close>

lemma scast_eq_ucast_below_0x80:
  fixes c :: "8 word"
  assumes "c < 0x80"
  shows "(scast c :: 64 word) = ucast c"
proof -
  have "c < 2 ^ 7" using assms by simp
  then have "c AND mask 7 = c"
    by (rule less_mask_eq)
  then have "take_bit 7 c = c"
    by (simp add: take_bit_eq_mask)
  then have "bit c 7 = bit (take_bit 7 c) 7" by simp
  then have nb: "\<not> bit c 7"
    by (simp add: bit_take_bit_iff)
  have low: "n < 8" if "bit c n" for n
    using bit_imp_le_length [OF that] by simp
  show ?thesis
  proof (rule bit_eqI)
    fix n assume "possible_bit TYPE(64 word) n"
    show "bit (scast c :: 64 word) n = bit (ucast c :: 64 word) n"
    proof (cases "n < 7")
      case True
      then show ?thesis by (simp add: bit_simps min_def)
    next
      case False
      then have m: "min 7 n = 7" by simp
      have "\<not> bit c n"
      proof
        assume b: "bit c n"
        then have "n = 7" using low [of n] False by simp
        then show False using b nb by simp
      qed
      then show ?thesis
        using nb by (simp add: bit_simps m)
    qed
  qed
qed

lemma pack_be_bits: "bit (pack_be cs i) n \<Longrightarrow> n < 64 - 8 * i"
proof (induction cs i rule: pack_be.induct)
  case (1 i)
  then show ?case by simp
next
  case (2 c cs i)
  show ?case
  proof (cases "i < 8")
    case True
    from 2(2) True consider "bit (push_bit (56 - 8 * i) (ucast c :: 64 word)) n"
      | "bit (pack_be cs (Suc i)) n"
      by (auto simp: bit_or_iff)
    then show ?thesis
    proof cases
      case 1
      then have "bit c (n - (56 - 8 * i))"
        by (auto simp: bit_simps)
      then have "n - (56 - 8 * i) < 8"
        using bit_imp_le_length by fastforce
      then show ?thesis using True by simp
    next
      case 2
      then have "n < 64 - 8 * Suc i" using "2.IH" True by simp
      then show ?thesis by simp
    qed
  next
    case False
    then show ?thesis using 2(2) by simp
  qed
qed

lemma pack_be_add:
  assumes "i < 8"
  shows "pack_be (c # cs) i = push_bit (56 - 8 * i) (ucast c) + pack_be cs (Suc i)"
proof -
  have "push_bit (56 - 8 * i) (ucast c :: 64 word) + pack_be cs (Suc i)
          = push_bit (56 - 8 * i) (ucast c) OR pack_be cs (Suc i)"
  proof (rule disjunctive_add)
    fix n
    show "\<not> bit (push_bit (56 - 8 * i) (ucast c :: 64 word)) n \<or> \<not> bit (pack_be cs (Suc i)) n"
    proof (cases "bit (pack_be cs (Suc i)) n")
      case True
      then have "n < 64 - 8 * Suc i" by (rule pack_be_bits)
      then have "n < 56 - 8 * i" by simp
      then show ?thesis by (simp add: bit_push_bit_iff)
    next
      case False
      then show ?thesis by simp
    qed
  qed
  then show ?thesis
    using assms by simp
qed

lemma payload_sum_pack_be:
  assumes "i + length cs \<le> 8" and "list_all (\<lambda>c. c < 0x80) cs"
  shows "payload_sum cs (int i) temp = Inr (temp + pack_be cs i)"
  using assms
proof (induction cs arbitrary: i temp)
  case Nil
  then show ?case by simp
next
  case (Cons c cs)
  have i: "i < 8" using Cons.prems(1) by simp
  have n: "nat (56 - 8 * int i) = 56 - 8 * i" using i by simp
  have "payload_sum (c # cs) (int i) temp
          = payload_sum cs (int (Suc i)) (temp + push_bit (56 - 8 * i) (scast c))"
    using i by (simp add: n add.commute)
  also have "\<dots> = Inr (temp + push_bit (56 - 8 * i) (scast c) + pack_be cs (Suc i))"
    using Cons.prems by (intro Cons.IH) simp_all
  also have "\<dots> = Inr (temp + pack_be (c # cs) i)"
    using Cons.prems(2)
    by (simp add: pack_be_add [OF i] scast_eq_ucast_below_0x80 add.assoc del: pack_be.simps)
  finally show ?case .
qed

lemma frame_val_spec_key:
  assumes "col = ASCII \<or> col = Data \<longrightarrow>
             length (payload f) \<le> 8 \<and> list_all (\<lambda>c. c < 0x80) (payload f)"
  shows "frame_val ow f col = Inr (spec_key ow col f)"
proof (cases "col = ASCII \<or> col = Data")
  case True
  then have "payload_sum (payload f) (int 0) 0 = Inr (0 + pack_be (payload f) 0)"
    using assms by (intro payload_sum_pack_be) simp_all
  then show ?thesis
    using True by (auto simp: frame_val_def spec_key_def)
next
  case False
  then show ?thesis
    by (cases col) (simp_all add: frame_val_def spec_key_def)
qed

lemma payloads_7bit_fit: "payloads_7bit fr \<Longrightarrow> payloads_fit fr"
  by (simp add: payloads_7bit_def payloads_fit_def list_all_iff)

lemma payloads_7bit_mset:
  "mset fr' = mset fr \<Longrightarrow> payloads_7bit fr \<Longrightarrow> payloads_7bit fr'"
  unfolding payloads_7bit_def list_all_iff by (metis set_mset_mset)

lemma getCANFrameVal_spec_key:
  assumes "column = ASCII \<or> column = Data \<longrightarrow> payloads_7bit (frames s)"
    and "0 \<le> i" and "i < int (length (frames s))"
  shows "getCANFrameVal s i column = Inr (spec_key (overwriteDups s) column (frames s ! nat i))"
proof -
  have "frames s ! nat i \<in> set (frames s)"
    using assms(2,3) by simp
  then have "column = ASCII \<or> column = Data \<longrightarrow>
      length (payload (frames s ! nat i)) \<le> 8
      \<and> list_all (\<lambda>c. c < 0x80) (payload (frames s ! nat i))"
    using assms(1) by (auto simp: payloads_7bit_def list_all_iff)
  then have "frame_val (overwriteDups s) (frames s ! nat i) column
               = Inr (spec_key (overwriteDups s) column (frames s ! nat i))"
    by (rule frame_val_spec_key)
  then show ?thesis
    using assms(2,3) by (simp add: getCANFrameVal_def)
qed

text \<open>
  The order that \<open>sortByColumn\<close> leaves, by the key of the specification: for every
  column other than \<open>Data\<close> and \<open>ASCII\<close>, and for these two when every payload has at most
  8 bytes, all below \<open>0x80\<close>, the value of \<open>getCANFrameVal\<close> is the key of the
  specification, and every adjacent pair of rows is in order for it.
\<close>

lemma sortByColumn_sorted_by_spec_key:
  assumes "column = ASCII \<or> column = Data \<longrightarrow> payloads_7bit (frames s)"
  shows "\<exists>s'. sortByColumn column s = Inr s'
           \<and> sortDirAsc s' = (\<not> sortDirAsc s)
           \<and> mset (frames s') = mset (frames s)
           \<and> (\<forall>i. 0 \<le> i \<and> i + 1 < int (length (frames s')) \<longrightarrow>
                 getCANFrameVal s' i column
                   = Inr (spec_key (overwriteDups s') column (frames s' ! nat i))
                 \<and> getCANFrameVal s' (i + 1) column
                   = Inr (spec_key (overwriteDups s') column (frames s' ! nat (i + 1)))
                 \<and> (if sortDirAsc s'
                    then spec_key (overwriteDups s') column (frames s' ! nat i)
                           \<le> spec_key (overwriteDups s') column (frames s' ! nat (i + 1))
                    else spec_key (overwriteDups s') column (frames s' ! nat (i + 1))
                           \<le> spec_key (overwriteDups s') column (frames s' ! nat i)))
           \<and> (\<exists>s''. sortByColumn column s' = Inr s'' \<and> sortDirAsc s'' = sortDirAsc s)"
proof -
  have fit: "column = ASCII \<or> column = Data \<longrightarrow> payloads_fit (frames s)"
    using assms by (auto intro: payloads_7bit_fit)
  obtain s' where r: "sortByColumn column s = Inr s'"
    and dir: "sortDirAsc s' = (\<not> sortDirAsc s)"
    and ms: "mset (frames s') = mset (frames s)"
    and S: "\<forall>i. 0 \<le> i \<and> i + 1 < int (length (frames s')) \<longrightarrow>
                 (\<exists>a b. getCANFrameVal s' i column = Inr a
                        \<and> getCANFrameVal s' (i + 1) column = Inr b
                        \<and> (if sortDirAsc s' then a \<le> b else b \<le> a))"
    and r2: "\<exists>s''. sortByColumn column s' = Inr s'' \<and> sortDirAsc s'' = sortDirAsc s"
    using sortByColumn_sorted [OF fit] by blast
  have p7: "column = ASCII \<or> column = Data \<longrightarrow> payloads_7bit (frames s')"
    using assms ms by (auto intro: payloads_7bit_mset)
  have G: "getCANFrameVal s' i column
                   = Inr (spec_key (overwriteDups s') column (frames s' ! nat i))
                 \<and> getCANFrameVal s' (i + 1) column
                   = Inr (spec_key (overwriteDups s') column (frames s' ! nat (i + 1)))
                 \<and> (if sortDirAsc s'
                    then spec_key (overwriteDups s') column (frames s' ! nat i)
                           \<le> spec_key (overwriteDups s') column (frames s' ! nat (i + 1))
                    else spec_key (overwriteDups s') column (frames s' ! nat (i + 1))
                           \<le> spec_key (overwriteDups s') column (frames s' ! nat i))"
    if i: "0 \<le> i \<and> i + 1 < int (length (frames s'))" for i
  proof -
    have a: "getCANFrameVal s' i column
               = Inr (spec_key (overwriteDups s') column (frames s' ! nat i))"
      using i by (intro getCANFrameVal_spec_key [OF p7]) simp_all
    have b: "getCANFrameVal s' (i + 1) column
               = Inr (spec_key (overwriteDups s') column (frames s' ! nat (i + 1)))"
      using i by (intro getCANFrameVal_spec_key [OF p7]) simp_all
    show ?thesis
      using S i a b by auto
  qed
  show ?thesis
    using r dir ms G r2 by blast
qed

text \<open>
  C4, on the \<open>Data\<close> column. After \<open>insertFrames\<close> the store holds the payloads
  \<open>01 00\<close> and \<open>01 80\<close>, in the order of the specification's key
  (\<open>0x0100000000000000\<close>, then \<open>0x0180000000000000\<close>).
  \<open>sortByColumn\<close> ends with the flag ascending and the rows exchanged: the conversion of
  the byte \<open>0x80\<close> through the signed \<open>char\<close> adds \<open>0xFF80000000000000\<close>, so
  \<open>getCANFrameVal\<close> gives \<open>01 80\<close> the value \<open>0x0080000000000000\<close>, below the value
  of \<open>01 00\<close>. After the ascending sort the key of row 0 is above the key of row 1.
\<close>

theorem C4_data_sort_against_spec_key:
  "map payload (frames two_frames) = [[0x01, 0x00], [0x01, 0x80]]
   \<and> (case sortByColumn Data two_frames of
         Inl e \<Rightarrow> False
       | Inr s' \<Rightarrow>
           sortDirAsc s'
           \<and> map payload (frames s') = [[0x01, 0x80], [0x01, 0x00]]
           \<and> getCANFrameVal s' 0 Data = Inr 0x0080000000000000
           \<and> getCANFrameVal s' 1 Data = Inr 0x0100000000000000
           \<and> spec_key (overwriteDups s') Data (frames s' ! 0) = 0x0180000000000000
           \<and> spec_key (overwriteDups s') Data (frames s' ! 1) = 0x0100000000000000
           \<and> \<not> spec_key (overwriteDups s') Data (frames s' ! 0)
                   \<le> spec_key (overwriteDups s') Data (frames s' ! 1))"
  by code_simp

end
